theory Spec2Isabelle
  imports Main "HOL-Library.AList" "HOL-Library.Word"
begin

section \<open>Data model of the bookshelf view\<close>

text \<open>
  The component under study is the bookshelf view (the script block of the single-file
  component): a list of books kept in step with a REST API, a colour assignment per book
  id, and the server wake-up banner driven by timers and silent retries.

  Items carry the identifier the API gave them.  Identifiers are numbers; the source tests
  them for truthiness (\<^verbatim>\<open>Boolean(editingId.value)\<close>), which for a number means "not zero".

  A JavaScript string is a sequence of UTF-16 code units.  The titles the user types, the
  names of the items and the status message, which quotes them, are kept as such; \<open>js\<close>
  gives the code units of a string of the script's own text.
\<close>

type_synonym code_unit = "16 word"

type_synonym jsstring = "code_unit list"

definition js :: "string \<Rightarrow> jsstring" where
  "js str = map of_char str"

record item =
  item_id :: nat
  item_name :: jsstring

text \<open>
  A gradient is the content of the CSS string built by \<^verbatim>\<open>gradientFromIndex\<close>: three colour
  stops, each a hue, a saturation and a lightness.  Hues are carried in thousandths of a
  degree, so that the decimal constant 137.508 and the remainder by 360 are exact.
\<close>

record hsl =
  hue :: nat
  saturation :: nat
  lightness :: nat

type_synonym gradient = "hsl list"

definition GOLDEN_ANGLE :: nat where "GOLDEN_ANGLE = 137508"
definition BASE_SATURATION :: nat where "BASE_SATURATION = 78"
definition BASE_LIGHTNESS :: nat where "BASE_LIGHTNESS = 56"
definition GRADIENT_STEP :: nat where "GRADIENT_STEP = 22000"
definition FULL_TURN :: nat where "FULL_TURN = 360000"

definition gradientFromIndex :: "nat \<Rightarrow> gradient" where
  "gradientFromIndex index =
     (let h = (index * GOLDEN_ANGLE) mod FULL_TURN;
          midHue = (h + GRADIENT_STEP) mod FULL_TURN;
          endHue = (h + GRADIENT_STEP * 2) mod FULL_TURN
      in [\<lparr>hue = h, saturation = BASE_SATURATION, lightness = BASE_LIGHTNESS + 8\<rparr>,
          \<lparr>hue = midHue, saturation = BASE_SATURATION, lightness = BASE_LIGHTNESS\<rparr>,
          \<lparr>hue = endHue, saturation = BASE_SATURATION - 6, lightness = BASE_LIGHTNESS - 10\<rparr>])"

text \<open>
  The colour map is a JavaScript object keyed by item id; it is kept as an association
  list with one entry per key, so that \<^verbatim>\<open>Object.keys(colorMap.value).length\<close> is its length.
\<close>

type_synonym color_map = "(nat \<times> gradient) list"

definition nextColorIndex :: "color_map \<Rightarrow> nat" where
  "nextColorIndex cm = length cm"

fun assignLoop :: "nat \<Rightarrow> item list \<Rightarrow> color_map \<Rightarrow> color_map" where
  "assignLoop colorIndex [] cm = cm"
| "assignLoop colorIndex (it # items) cm =
     (if map_of cm (item_id it) = None
      then assignLoop (colorIndex + 1) items
             (AList.update (item_id it) (gradientFromIndex colorIndex) cm)
      else assignLoop colorIndex items cm)"

definition assignColors :: "item list \<Rightarrow> color_map \<Rightarrow> color_map" where
  "assignColors items cm = assignLoop (nextColorIndex cm) items cm"

text \<open>
  The application shell has an earlier copy of the same script, without the banner.  Its
  \<^verbatim>\<open>assignColors\<close> draws each new colour from a palette with \<^verbatim>\<open>Math.random\<close>; the draws are
  given here as a function from the number of the draw to the random index.
\<close>

definition palette :: "string list" where
  "palette = [''from-rose-500 via-fuchsia-500 to-orange-400'',
              ''from-emerald-500 via-teal-500 to-cyan-400'',
              ''from-indigo-500 via-blue-500 to-sky-400'',
              ''from-amber-500 via-orange-500 to-rose-400'',
              ''from-purple-500 via-violet-500 to-pink-400'',
              ''from-lime-500 via-green-500 to-emerald-400'']"

definition pickColor :: "nat \<Rightarrow> string" where
  "pickColor r = palette ! (r mod length palette)"

fun assignPalette :: "(nat \<Rightarrow> nat) \<Rightarrow> nat \<Rightarrow> item list \<Rightarrow> (nat \<times> string) list \<Rightarrow> (nat \<times> string) list" where
  "assignPalette draw n [] cm = cm"
| "assignPalette draw n (it # items) cm =
     (if map_of cm (item_id it) = None
      then assignPalette draw (n + 1) items (AList.update (item_id it) (pickColor (draw n)) cm)
      else assignPalette draw n items cm)"

section \<open>Timers, pending requests and the component state\<close>

datatype phase = Idle | Countdown | Grace | Failed

text \<open>
  The callbacks handed to \<^verbatim>\<open>setTimeout\<close> and \<^verbatim>\<open>setInterval\<close>.  The kickoff delay callback closes
  over the \<^verbatim>\<open>fetchBooks\<close> call that created it (named by the id of its request); the grace
  callback closes over the \<^verbatim>\<open>secondsLeft\<close> variable of its \<^verbatim>\<open>startGracePeriod\<close> call (named by a
  cell number).
\<close>

datatype callback = BannerDelay nat | CountdownTick | GraceTick nat | FinalHide

record timer =
  due :: nat
  period :: "nat option"
  callback :: callback

text \<open>
  What runs after an awaited call returns.  \<^verbatim>\<open>tryFetchDuringBanner\<close> is awaited by the
  countdown callback (nothing follows), called without await by \<^verbatim>\<open>startServerWakeBanner\<close>
  (nothing follows), and awaited by the grace callback (the expiry check follows).
\<close>

datatype after_retry = Detached | GraceCheck nat

datatype caller = Top | Retry after_retry

datatype stage = AwaitFetch | AwaitJson

record fetch_frame =
  silent :: bool
  triggerBannerOnFailure :: bool
  allowImmediateFailure :: bool
  bannerKickoffPending :: bool
  awaiting :: stage
  caller :: caller

datatype frame =
    FetchBooks fetch_frame
  | SaveBook bool stage
  | RemoveBook nat

datatype body = Items "item list" | Single item

text \<open>
  How an awaited promise settles: \<^verbatim>\<open>fetch\<close> rejects (no response object, the error's
  message), \<^verbatim>\<open>fetch\<close> resolves to a response with a status, \<^verbatim>\<open>response.json()\<close> resolves to
  the parsed body, or \<^verbatim>\<open>response.json()\<close> rejects.
\<close>

datatype outcome = Rejected string | Response nat | Json body | JsonRejected string

record app =
  books :: "item list"
  colorMap :: color_map
  formName :: jsstring
  editingId :: "nat option"
  statusMessage :: jsstring
  loading :: bool
  bannerVisible :: bool
  bannerMessage :: string
  bannerCountdown :: "nat option"
  bannerPhase :: phase
  bannerFailureMessage :: string
  bannerDelayTimer :: "nat option"
  countdownTimer :: "nat option"
  graceTimer :: "nat option"
  finalTimer :: "nat option"
  bannerFetchInFlight :: bool
  secondsLeft :: "nat \<Rightarrow> int"
  clock :: nat
  timers :: "(nat \<times> timer) list"
  nextHandle :: nat
  pending :: "(nat \<times> frame) list"
  nextFetch :: nat

definition init :: app where
  "init = \<lparr>books = [], colorMap = [], formName = [], editingId = None,
     statusMessage =
       js ''Use this shelf to exercise the API while dreaming about books to read next.'',
     loading = False, bannerVisible = False, bannerMessage = [], bannerCountdown = None,
     bannerPhase = Idle, bannerFailureMessage = ''Failed to fetch'',
     bannerDelayTimer = None, countdownTimer = None, graceTimer = None, finalTimer = None,
     bannerFetchInFlight = False, secondsLeft = (\<lambda>_. 0),
     clock = 0, timers = [], nextHandle = 1, pending = [], nextFetch = 0\<rparr>"

subsection \<open>The timer table of the event loop\<close>

definition setTimeout :: "callback \<Rightarrow> nat \<Rightarrow> app \<Rightarrow> nat \<times> app" where
  "setTimeout cb ms s =
     (nextHandle s,
      s\<lparr>timers := timers s @ [(nextHandle s, \<lparr>due = clock s + ms, period = None, callback = cb\<rparr>)],
        nextHandle := Suc (nextHandle s)\<rparr>)"

definition setInterval :: "callback \<Rightarrow> nat \<Rightarrow> app \<Rightarrow> nat \<times> app" where
  "setInterval cb ms s =
     (nextHandle s,
      s\<lparr>timers := timers s @ [(nextHandle s, \<lparr>due = clock s + ms, period = Some ms, callback = cb\<rparr>)],
        nextHandle := Suc (nextHandle s)\<rparr>)"

definition clearTimer :: "nat option \<Rightarrow> app \<Rightarrow> app" where
  "clearTimer ho s =
     (case ho of None \<Rightarrow> s
      | Some h \<Rightarrow> s\<lparr>timers := filter (\<lambda>ht. fst ht \<noteq> h) (timers s)\<rparr>)"

subsection \<open>Small helpers of the component\<close>

definition resetForm :: "app \<Rightarrow> app" where
  "resetForm s = s\<lparr>formName := [], editingId := None\<rparr>"

definition setMessage :: "jsstring \<Rightarrow> app \<Rightarrow> app" where
  "setMessage text s = s\<lparr>statusMessage := text\<rparr>"

definition clearBannerTimers :: "app \<Rightarrow> app" where
  "clearBannerTimers s =
     (let s1 = (if countdownTimer s \<noteq> None
                then (clearTimer (countdownTimer s) s)\<lparr>countdownTimer := None\<rparr> else s);
          s2 = (if graceTimer s1 \<noteq> None
                then (clearTimer (graceTimer s1) s1)\<lparr>graceTimer := None\<rparr> else s1);
          s3 = (if finalTimer s2 \<noteq> None
                then (clearTimer (finalTimer s2) s2)\<lparr>finalTimer := None\<rparr> else s2)
      in s3)"

definition hideBanner :: "app \<Rightarrow> app" where
  "hideBanner s =
     clearBannerTimers
       (s\<lparr>bannerVisible := False, bannerCountdown := None, bannerMessage := [],
          bannerPhase := Idle\<rparr>)"

section \<open>The operations of the component\<close>

subsection \<open>Fetching the list: the part that runs before the first await\<close>

text \<open>
  An async function runs until its first \<^verbatim>\<open>await\<close> and is resumed when the awaited promise
  settles.  \<^verbatim>\<open>fetchBooks\<close> below is the part of the source's \<^verbatim>\<open>fetchBooks\<close> up to
  \<^verbatim>\<open>await fetch(apiUrl)\<close>: it leaves a frame in \<open>pending\<close>, holding the call's options, its
  local \<^verbatim>\<open>bannerKickoffPending\<close> and what its caller does once it returns.
\<close>

definition fetchBooks :: "bool \<Rightarrow> bool \<Rightarrow> bool \<Rightarrow> caller \<Rightarrow> app \<Rightarrow> app" where
  "fetchBooks sil trig allow k s =
     (let fid = nextFetch s;
          s1 = (if \<not> sil then setMessage (js ''Fetching your reading list...'') (s\<lparr>loading := True\<rparr>)
                else s);
          s2 = (if trig
                then (let (h, s') = setTimeout (BannerDelay fid) 1200 s1
                      in s'\<lparr>bannerDelayTimer := Some h\<rparr>)
                else s1)
      in s2\<lparr>pending := pending s2 @
                [(fid, FetchBooks \<lparr>silent = sil, triggerBannerOnFailure = trig,
                     allowImmediateFailure = allow, bannerKickoffPending = trig,
                     awaiting = AwaitFetch, caller = k\<rparr>)],
            nextFetch := Suc fid\<rparr>)"

subsection \<open>The banner\<close>

text \<open>
  The tail of the grace callback, after \<^verbatim>\<open>await tryFetchDuringBanner()\<close>: it reads the
  \<^verbatim>\<open>secondsLeft\<close> of its own grace period and the banner's visibility as they are when it
  is resumed.
\<close>

definition graceExpiry :: "nat \<Rightarrow> app \<Rightarrow> app" where
  "graceExpiry cell s =
     (if secondsLeft s cell \<le> 0 \<and> bannerVisible s
      then (let s1 = (clearTimer (graceTimer s) s)\<lparr>graceTimer := None, bannerPhase := Failed,
                        bannerMessage := bannerFailureMessage s\<rparr>;
                (h, s2) = setTimeout FinalHide 3000 s1
            in s2\<lparr>finalTimer := Some h\<rparr>)
      else s)"

fun resume_after_retry :: "after_retry \<Rightarrow> app \<Rightarrow> app" where
  "resume_after_retry Detached s = s"
| "resume_after_retry (GraceCheck cell) s = graceExpiry cell s"

definition tryFetchDuringBanner :: "after_retry \<Rightarrow> app \<Rightarrow> app" where
  "tryFetchDuringBanner k s =
     (if bannerFetchInFlight s then resume_after_retry k s
      else fetchBooks True False True (Retry k) (s\<lparr>bannerFetchInFlight := True\<rparr>))"

definition startGracePeriod :: "app \<Rightarrow> app" where
  "startGracePeriod s =
     (let cell = nextHandle s;
          s1 = s\<lparr>secondsLeft := (secondsLeft s)(cell := 10), bannerPhase := Grace,
                 bannerMessage := ''The server is starting...''\<rparr>;
          (h, s2) = setInterval (GraceTick cell) 1000 s1
      in s2\<lparr>graceTimer := Some h\<rparr>)"

definition startServerWakeBanner :: "bool \<Rightarrow> string \<Rightarrow> app \<Rightarrow> app" where
  "startServerWakeBanner immediateFailure failureMessage s =
     (let s1 = s\<lparr>bannerVisible := True, bannerFailureMessage := failureMessage\<rparr>
      in if immediateFailure
         then (let s2 = s1\<lparr>bannerPhase := Failed, bannerMessage := bannerFailureMessage s1,
                           bannerCountdown := None\<rparr>;
                   (h, s3) = setTimeout FinalHide 3000 s2
               in s3\<lparr>finalTimer := Some h\<rparr>)
         else (let s2 = s1\<lparr>bannerPhase := Countdown,
                           bannerMessage := ''Starting server, it usually takes'',
                           bannerCountdown := Some 25\<rparr>;
                   s3 = tryFetchDuringBanner Detached s2;
                   (h, s4) = setInterval CountdownTick 1000 s3
               in s4\<lparr>countdownTimer := Some h\<rparr>))"

subsection \<open>Fetching the list: the part that runs when the request settles\<close>

definition ok :: "nat \<Rightarrow> bool" where
  "ok status = (200 \<le> status \<and> status \<le> 299)"

definition fetchBooks_finally :: "fetch_frame \<Rightarrow> app \<Rightarrow> app" where
  "fetchBooks_finally f s =
     (let s1 = (if bannerDelayTimer s \<noteq> None
                then (clearTimer (bannerDelayTimer s) s)\<lparr>bannerDelayTimer := None\<rparr> else s)
      in if \<not> silent f then s1\<lparr>loading := False\<rparr> else s1)"

fun return_to :: "caller \<Rightarrow> app \<Rightarrow> app" where
  "return_to Top s = s"
| "return_to (Retry k) s = resume_after_retry k (s\<lparr>bannerFetchInFlight := False\<rparr>)"

text \<open>
  The \<^verbatim>\<open>catch\<close> block.  \<open>hasResponse\<close> says whether the local \<^verbatim>\<open>response\<close> was assigned before
  the error was thrown; \<open>msg\<close> is \<^verbatim>\<open>error.message\<close>.
\<close>

definition fetchBooks_catch :: "fetch_frame \<Rightarrow> bool \<Rightarrow> string \<Rightarrow> app \<Rightarrow> app" where
  "fetchBooks_catch f hasResponse msg s =
     (let s1 = (if \<not> silent f then setMessage (js msg) s else s);
          s2 = (if triggerBannerOnFailure f \<and> \<not> bannerVisible s1
                then (let s' = (if bannerDelayTimer s1 \<noteq> None
                                then (clearTimer (bannerDelayTimer s1) s1)\<lparr>bannerDelayTimer := None\<rparr>
                                else s1);
                          immediateFailure = (allowImmediateFailure f \<and>
                             (\<not> hasResponse \<or> msg = ''Failed to fetch''));
                          bannerAlreadyStarted = (\<not> bannerKickoffPending f)
                      in startServerWakeBanner immediateFailure
                           (if bannerAlreadyStarted then bannerFailureMessage s' else msg) s')
                else s1)
      in return_to (caller f) (fetchBooks_finally f s2))"

definition fetchBooks_success :: "fetch_frame \<Rightarrow> item list \<Rightarrow> app \<Rightarrow> app" where
  "fetchBooks_success f data s =
     (let s1 = s\<lparr>books := data\<rparr>;
          s2 = s1\<lparr>colorMap := assignColors data (colorMap s1)\<rparr>;
          s3 = setMessage (js ''Reading list refreshed. Ready for more stories!'') s2;
          s4 = hideBanner s3
      in return_to (caller f) (fetchBooks_finally f s4))"

text \<open>
  Resuming a \<^verbatim>\<open>fetchBooks\<close> frame.  The frame has already been taken out of \<open>pending\<close>; a
  response with an ok status puts it back, now waiting for the body.  A settlement that does
  not fit the stage (a body before the response) is not an event of the program.
\<close>

definition fetchBooks_resume :: "nat \<Rightarrow> fetch_frame \<Rightarrow> outcome \<Rightarrow> app \<Rightarrow> app option" where
  "fetchBooks_resume fid f out s =
     (case awaiting f of
        AwaitFetch \<Rightarrow>
          (case out of
             Rejected msg \<Rightarrow> Some (fetchBooks_catch f False msg s)
           | Response status \<Rightarrow>
               (if \<not> ok status then Some (fetchBooks_catch f True ''Unable to load books'' s)
                else Some (s\<lparr>pending := pending s @ [(fid, FetchBooks (f\<lparr>awaiting := AwaitJson\<rparr>))]\<rparr>))
           | Json b \<Rightarrow> None
           | JsonRejected msg \<Rightarrow> None)
      | AwaitJson \<Rightarrow>
          (case out of
             Json b \<Rightarrow> (case b of Items data \<Rightarrow> Some (fetchBooks_success f data s)
                         | Single d \<Rightarrow> None)
           | JsonRejected msg \<Rightarrow> Some (fetchBooks_catch f True msg s)
           | Rejected msg \<Rightarrow> None
           | Response status \<Rightarrow> None))"

subsection \<open>Saving, editing and removing a book\<close>

text \<open>
  \<^verbatim>\<open>String.prototype.trim\<close> removes white space and line terminators from both ends.  White
  space is tab, vertical tab, form feed, the byte order mark and the space separators of
  Unicode (space, no-break space, U+1680, U+2000 to U+200A, U+202F, U+205F, U+3000); the
  line terminators are line feed, carriage return, U+2028 and U+2029.  All of them are
  single code units.
\<close>

definition is_space :: "code_unit \<Rightarrow> bool" where
  "is_space c =
     (c \<in> set [0x09, 0x0B, 0x0C, 0xFEFF, 0x20, 0xA0, 0x1680, 0x202F, 0x205F, 0x3000,
                0x0A, 0x0D, 0x2028, 0x2029] \<or>
      (0x2000 \<le> c \<and> c \<le> 0x200A))"

definition trim :: "jsstring \<Rightarrow> jsstring" where
  "trim str = rev (dropWhile is_space (rev (dropWhile is_space str)))"

definition truthy :: "nat option \<Rightarrow> bool" where
  "truthy v = (case v of None \<Rightarrow> False | Some n \<Rightarrow> n \<noteq> 0)"

definition saveBook :: "app \<Rightarrow> app" where
  "saveBook s =
     (if trim (formName s) = [] then setMessage (js ''Give the book a title before saving.'') s
      else (let isEditing = truthy (editingId s);
                s1 = setMessage (js (if isEditing then ''Updating that book note...''
                                     else ''Adding a new book to the shelf...'')) s
            in s1\<lparr>pending := pending s1 @ [(nextFetch s1, SaveBook isEditing AwaitFetch)],
                  nextFetch := Suc (nextFetch s1)\<rparr>))"

fun findIndex :: "(item \<Rightarrow> bool) \<Rightarrow> item list \<Rightarrow> nat option" where
  "findIndex p [] = None"
| "findIndex p (b # bs) =
     (if p b then Some 0 else (case findIndex p bs of None \<Rightarrow> None | Some i \<Rightarrow> Some (Suc i)))"

definition saveBook_success :: "bool \<Rightarrow> item \<Rightarrow> app \<Rightarrow> app" where
  "saveBook_success isEditing data s =
     resetForm
       (if \<not> isEditing
        then setMessage (js [CHR 0x22] @ item_name data @
                          js ([CHR 0x22] @ '' added. Keep the reading streak alive!''))
               (s\<lparr>books := books s @ [data],
                  colorMap := AList.update (item_id data)
                                (gradientFromIndex (nextColorIndex (colorMap s))) (colorMap s)\<rparr>)
        else setMessage (js ''Book note updated. Turn the next page!'')
               (case findIndex (\<lambda>book. Some (item_id book) = editingId s) (books s) of
                  None \<Rightarrow> s
                | Some i \<Rightarrow> s\<lparr>books := (books s)[i := data]\<rparr>))"

definition saveBook_resume :: "nat \<Rightarrow> bool \<Rightarrow> stage \<Rightarrow> outcome \<Rightarrow> app \<Rightarrow> app option" where
  "saveBook_resume fid isEditing st out s =
     (case st of
        AwaitFetch \<Rightarrow>
          (case out of
             Rejected msg \<Rightarrow> Some (setMessage (js msg) s)
           | Response status \<Rightarrow>
               (if \<not> ok status
                then Some (setMessage (js ''Request failed. Check the API and try again.'') s)
                else Some (s\<lparr>pending := pending s @ [(fid, SaveBook isEditing AwaitJson)]\<rparr>))
           | Json b \<Rightarrow> None
           | JsonRejected msg \<Rightarrow> None)
      | AwaitJson \<Rightarrow>
          (case out of
             Json b \<Rightarrow> (case b of Single data \<Rightarrow> Some (saveBook_success isEditing data s)
                         | Items ds \<Rightarrow> None)
           | JsonRejected msg \<Rightarrow> Some (setMessage (js msg) s)
           | Rejected msg \<Rightarrow> None
           | Response status \<Rightarrow> None))"

definition startEdit :: "item \<Rightarrow> app \<Rightarrow> app" where
  "startEdit book s =
     setMessage (js (''Editing '' @ [CHR 0x22]) @ item_name book @
                 js ([CHR 0x22] @ ''. Make your changes and save.''))
       (s\<lparr>editingId := Some (item_id book), formName := item_name book\<rparr>)"

definition removeBook :: "nat \<Rightarrow> app \<Rightarrow> app" where
  "removeBook i s =
     (let s1 = setMessage (js ''Sending this book back to the library...'') s
      in s1\<lparr>pending := pending s1 @ [(nextFetch s1, RemoveBook i)],
            nextFetch := Suc (nextFetch s1)\<rparr>)"

definition removeBook_success :: "nat \<Rightarrow> app \<Rightarrow> app" where
  "removeBook_success i s =
     (let s1 = s\<lparr>books := filter (\<lambda>book. item_id book \<noteq> i) (books s)\<rparr>;
          s2 = s1\<lparr>colorMap := AList.delete i (colorMap s1)\<rparr>;
          s3 = setMessage (js ''Book removed. Shelf is a little lighter now.'') s2
      in if editingId s3 = Some i then resetForm s3 else s3)"

definition removeBook_resume :: "nat \<Rightarrow> outcome \<Rightarrow> app \<Rightarrow> app option" where
  "removeBook_resume i out s =
     (case out of
        Rejected msg \<Rightarrow> Some (setMessage (js msg) s)
      | Response status \<Rightarrow>
          (if \<not> ok status \<and> status \<noteq> 204
           then Some (setMessage (js ''Could not remove the book. Is the API running?'') s)
           else Some (removeBook_success i s))
      | Json b \<Rightarrow> None
      | JsonRejected msg \<Rightarrow> None)"

definition initializeBooks :: "app \<Rightarrow> app" where
  "initializeBooks s = fetchBooks False True True Top s"

section \<open>The event loop\<close>

subsection \<open>Timer callbacks\<close>

text \<open>
  The kickoff delay callback assigns the \<^verbatim>\<open>bannerKickoffPending\<close> of the call that created it;
  once that call has returned, the assignment has no reader.
\<close>

fun kickoff_frame :: "bool \<Rightarrow> frame \<Rightarrow> frame" where
  "kickoff_frame v (FetchBooks f) = FetchBooks (f\<lparr>bannerKickoffPending := v\<rparr>)"
| "kickoff_frame v (SaveBook e st) = SaveBook e st"
| "kickoff_frame v (RemoveBook i) = RemoveBook i"

definition set_kickoff :: "nat \<Rightarrow> bool \<Rightarrow> (nat \<times> frame) list \<Rightarrow> (nat \<times> frame) list" where
  "set_kickoff fid v ps = map (\<lambda>p. if fst p = fid then (fst p, kickoff_frame v (snd p)) else p) ps"

definition countdownExpiry :: "app \<Rightarrow> app" where
  "countdownExpiry s =
     startGracePeriod
       ((clearTimer (countdownTimer s) s)\<lparr>countdownTimer := None, bannerCountdown := None\<rparr>)"

fun run_callback :: "callback \<Rightarrow> app \<Rightarrow> app" where
  "run_callback (BannerDelay fid) s =
     (let s1 = (if \<not> bannerVisible s \<and> loading s
                then startServerWakeBanner False ''Unable to load books'' s else s)
      in s1\<lparr>pending := set_kickoff fid False (pending s1), bannerDelayTimer := None\<rparr>)"
| "run_callback CountdownTick s =
     (case bannerCountdown s of
        None \<Rightarrow> countdownExpiry s
      | Some c \<Rightarrow>
          if c > 1 then tryFetchDuringBanner Detached (s\<lparr>bannerCountdown := Some (c - 1)\<rparr>)
          else countdownExpiry s)"
| "run_callback (GraceTick cell) s =
     tryFetchDuringBanner (GraceCheck cell)
       (s\<lparr>secondsLeft := (secondsLeft s)(cell := secondsLeft s cell - 1)\<rparr>)"
| "run_callback FinalHide s = hideBanner s"

subsection \<open>Events\<close>

text \<open>
  The earliest timer of the table; of two timers due at the same time, the one registered
  first.
\<close>

fun earliest :: "(nat \<times> timer) list \<Rightarrow> (nat \<times> timer) option" where
  "earliest [] = None"
| "earliest (x # xs) =
     (case earliest xs of
        None \<Rightarrow> Some x
      | Some y \<Rightarrow> if due (snd x) \<le> due (snd y) then Some x else Some y)"

definition rearm :: "nat \<Rightarrow> timer \<Rightarrow> (nat \<times> timer) list \<Rightarrow> (nat \<times> timer) list" where
  "rearm h t ts =
     (case period t of
        None \<Rightarrow> filter (\<lambda>ht. fst ht \<noteq> h) ts
      | Some p \<Rightarrow> map (\<lambda>ht. if fst ht = h then (h, t\<lparr>due := due t + p\<rparr>) else ht) ts)"

text \<open>
  Time passes until the earliest timer is due; the event loop then runs its callback.  A
  timeout leaves the table before its callback runs, an interval is due again one period
  later.
\<close>

definition fire :: "app \<Rightarrow> app option" where
  "fire s =
     (case earliest (timers s) of
        None \<Rightarrow> None
      | Some (h, t) \<Rightarrow>
          Some (run_callback (callback t) (s\<lparr>clock := due t, timers := rearm h t (timers s)\<rparr>)))"

definition settle :: "nat \<Rightarrow> outcome \<Rightarrow> app \<Rightarrow> app option" where
  "settle fid out s =
     (case map_of (pending s) fid of
        None \<Rightarrow> None
      | Some fr \<Rightarrow>
          (let s0 = s\<lparr>pending := filter (\<lambda>p. fst p \<noteq> fid) (pending s)\<rparr>
           in case fr of
                FetchBooks f \<Rightarrow> fetchBooks_resume fid f out s0
              | SaveBook e st \<Rightarrow> saveBook_resume fid e st out s0
              | RemoveBook i \<Rightarrow> removeBook_resume i out s0))"

text \<open>
  The events of a run: the component is mounted or unmounted, the earliest timer fires, time
  passes without any timer coming due, an awaited promise settles, or the user acts on the
  page.
\<close>

datatype event =
    Mount
  | Unmount
  | Tick
  | Wait nat
  | Settle nat outcome
  | ClickRefresh
  | Submit
  | ClickEdit item
  | ClickDelete nat
  | ClickCancel
  | Input jsstring

fun step :: "app \<Rightarrow> event \<Rightarrow> app option" where
  "step s Mount = Some (initializeBooks s)"
| "step s Unmount = Some (clearBannerTimers s)"
| "step s Tick = fire s"
| "step s (Wait d) =
     (if list_all (\<lambda>ht. clock s + d < due (snd ht)) (timers s)
      then Some (s\<lparr>clock := clock s + d\<rparr>) else None)"
| "step s (Settle fid out) = settle fid out s"
| "step s ClickRefresh = Some (fetchBooks False True False Top s)"
| "step s Submit = Some (saveBook s)"
| "step s (ClickEdit book) = Some (startEdit book s)"
| "step s (ClickDelete i) = Some (removeBook i s)"
| "step s ClickCancel = Some (resetForm s)"
| "step s (Input str) = Some (s\<lparr>formName := str\<rparr>)"

fun run :: "app \<Rightarrow> event list \<Rightarrow> app option" where
  "run s [] = Some s"
| "run s (e # es) = (case step s e of None \<Rightarrow> None | Some s' \<Rightarrow> run s' es)"

section \<open>Colour assignment\<close>

text \<open>
  The ids of a list that have no colour yet, each once, in the order in which the list
  first shows them.
\<close>

fun firstSeen :: "nat list \<Rightarrow> nat list" where
  "firstSeen [] = []"
| "firstSeen (x # xs) = x # firstSeen (filter (\<lambda>y. y \<noteq> x) xs)"

definition newIds :: "color_map \<Rightarrow> item list \<Rightarrow> nat list" where
  "newIds cm items = firstSeen (filter (\<lambda>i. map_of cm i = None) (map item_id items))"

lemma assignLoop_keeps:
  "map_of cm k = Some g \<Longrightarrow> map_of (assignLoop n items cm) k = Some g"
proof (induction items arbitrary: n cm)
  case Nil
  then show ?case by simp
next
  case (Cons it items)
  show ?case
  proof (cases "map_of cm (item_id it)")
    case None
    with Cons.prems have "k \<noteq> item_id it" by auto
    with Cons.prems have "map_of (AList.update (item_id it) (gradientFromIndex n) cm) k = Some g"
      by (simp add: update_conv')
    with None show ?thesis by (simp add: Cons.IH)
  next
    case (Some g')
    then have "assignLoop n (it # items) cm = assignLoop n items cm" by simp
    with Cons.IH[OF Cons.prems] show ?thesis by simp
  qed
qed

lemma newIds_Cons_new:
  assumes "map_of cm (item_id it) = None"
  shows "newIds cm (it # items) = item_id it # newIds (AList.update (item_id it) g cm) items"
proof -
  have "(\<lambda>i. map_of (AList.update (item_id it) g cm) i = None)
          = (\<lambda>y. map_of cm y = None \<and> y \<noteq> item_id it)"
    by (auto simp: update_conv' fun_eq_iff)
  then have "newIds (AList.update (item_id it) g cm) items
          = firstSeen (filter (\<lambda>y. map_of cm y = None \<and> y \<noteq> item_id it) (map item_id items))"
    by (simp add: newIds_def)
  moreover have "newIds cm (it # items)
          = item_id it # firstSeen (filter (\<lambda>y. y \<noteq> item_id it)
              (filter (\<lambda>y. map_of cm y = None) (map item_id items)))"
    using assms by (simp add: newIds_def)
  ultimately show ?thesis by (simp add: conj_commute)
qed

lemma newIds_Cons_old:
  "map_of cm (item_id it) = Some g \<Longrightarrow> newIds cm (it # items) = newIds cm items"
  by (simp add: newIds_def)

lemma assignLoop_new:
  "j < length (newIds cm items) \<Longrightarrow>
   map_of (assignLoop n items cm) (newIds cm items ! j) = Some (gradientFromIndex (n + j))"
proof (induction items arbitrary: n cm j)
  case Nil
  then show ?case by (simp add: newIds_def)
next
  case (Cons it items)
  show ?case
  proof (cases "map_of cm (item_id it)")
    case True: None
    let ?cm = "AList.update (item_id it) (gradientFromIndex n) cm"
    have eq: "newIds cm (it # items) = item_id it # newIds ?cm items"
      using True by (rule newIds_Cons_new)
    show ?thesis
    proof (cases j)
      case 0
      have "map_of ?cm (item_id it) = Some (gradientFromIndex n)" by (simp add: update_conv')
      then have "map_of (assignLoop (n + 1) items ?cm) (item_id it) = Some (gradientFromIndex n)"
        by (rule assignLoop_keeps)
      with True 0 eq show ?thesis by simp
    next
      case (Suc j')
      with Cons.prems eq have "j' < length (newIds ?cm items)" by simp
      then have "map_of (assignLoop (n + 1) items ?cm) (newIds ?cm items ! j')
                 = Some (gradientFromIndex (n + 1 + j'))" by (rule Cons.IH)
      with True Suc eq show ?thesis by simp
    qed
  next
    case (Some g')
    then have "newIds cm (it # items) = newIds cm items" by (rule newIds_Cons_old)
    with Some Cons show ?thesis by simp
  qed
qed

lemma assignLoop_fixed:
  "\<forall>it \<in> set items. map_of cm (item_id it) \<noteq> None \<Longrightarrow> assignLoop n items cm = cm"
proof (induction items arbitrary: n)
  case Nil
  then show ?case by simp
next
  case (Cons it items)
  then obtain g where "map_of cm (item_id it) = Some g" by auto
  with Cons show ?case by simp
qed

lemma assignLoop_dom:
  "it \<in> set items \<Longrightarrow> map_of (assignLoop n items cm) (item_id it) \<noteq> None"
proof (induction items arbitrary: n cm)
  case Nil
  then show ?case by simp
next
  case (Cons a items)
  show ?case
  proof (cases "it = a")
    case True
    show ?thesis
    proof (cases "map_of cm (item_id a)")
      case T: None
      have "map_of (AList.update (item_id a) (gradientFromIndex n) cm) (item_id a) = Some (gradientFromIndex n)"
        by (simp add: update_conv')
      from assignLoop_keeps[OF this] T True show ?thesis by simp
    next
      case (Some g)
      from assignLoop_keeps[OF this] Some True show ?thesis by simp
    qed
  next
    case False
    with Cons.prems have "it \<in> set items" by simp
    then have "\<And>m c. map_of (assignLoop m items c) (item_id it) \<noteq> None" by (rule Cons.IH)
    then show ?thesis by (cases "map_of cm (item_id a)") simp_all
  qed
qed

lemma assignPalette_keeps:
  "map_of cm k = Some c \<Longrightarrow> map_of (assignPalette draw n items cm) k = Some c"
proof (induction items arbitrary: n cm)
  case Nil
  then show ?case by simp
next
  case (Cons it items)
  show ?case
  proof (cases "map_of cm (item_id it)")
    case None
    with Cons.prems have "k \<noteq> item_id it" by auto
    with Cons.prems have "map_of (AList.update (item_id it) (pickColor (draw n)) cm) k = Some c"
      by (simp add: update_conv')
    with None show ?thesis by (simp add: Cons.IH)
  next
    case (Some c')
    then have "assignPalette draw n (it # items) cm = assignPalette draw n items cm" by simp
    with Cons.IH[OF Cons.prems] show ?thesis by simp
  qed
qed

lemma assignColors_idem: "assignColors items (assignColors items cm) = assignColors items cm"
proof -
  have "\<forall>it \<in> set items. map_of (assignColors items cm) (item_id it) \<noteq> None"
    by (simp add: assignColors_def assignLoop_dom)
  then have "assignLoop (nextColorIndex (assignColors items cm)) items (assignColors items cm)
               = assignColors items cm"
    by (rule assignLoop_fixed)
  then show ?thesis by (simp add: assignColors_def)
qed

text \<open>
  The gradient of an index is fixed by the index: its three hues are (i * 137.508) mod 360
  and that hue advanced by 22 and by 44 degrees, mod 360 (in thousandths of a degree), with
  the saturations 78, 78, 72 and the lightnesses 64, 56, 46.  \<^verbatim>\<open>assignColors\<close> leaves every id
  that has a gradient with the gradient it has; the ids without one receive, in the order
  in which the list first shows them, the gradients of the indices that follow the number
  of ids already coloured; and running it again on the same list changes nothing.  Saving
  a book leaves the gradient of every other id as it is; creating one gives the id of the
  created book the gradient of the next index, whether or not the id has a gradient.  The
  earlier copy of the script, which draws its colours at random, also leaves every coloured
  id as it is in \<^verbatim>\<open>assignColors\<close>.
\<close>

theorem assignColors_first_seen:
  "(map_of cm k = Some g \<longrightarrow> map_of (assignColors items cm) k = Some g) \<and>
   (j < length (newIds cm items) \<longrightarrow>
      map_of (assignColors items cm) (newIds cm items ! j)
        = Some (gradientFromIndex (nextColorIndex cm + j))) \<and>
   assignColors items (assignColors items cm) = assignColors items cm \<and>
   map hue (gradientFromIndex i) =
     [(i * 137508) mod 360000, ((i * 137508) mod 360000 + 22000) mod 360000,
      ((i * 137508) mod 360000 + 44000) mod 360000] \<and>
   map saturation (gradientFromIndex i) = [78, 78, 72] \<and>
   map lightness (gradientFromIndex i) = [64, 56, 46] \<and>
   (k \<noteq> item_id data \<longrightarrow>
      map_of (colorMap (saveBook_success e data s)) k = map_of (colorMap s) k) \<and>
   map_of (colorMap (saveBook_success False data s)) (item_id data)
     = Some (gradientFromIndex (nextColorIndex (colorMap s))) \<and>
   (map_of pm k = Some c \<longrightarrow> map_of (assignPalette draw n items pm) k = Some c)"
proof -
  have save_other: "k \<noteq> item_id data \<longrightarrow>
      map_of (colorMap (saveBook_success e data s)) k = map_of (colorMap s) k"
    by (simp add: saveBook_success_def resetForm_def setMessage_def update_conv'
        split: option.splits)
  have save_new: "map_of (colorMap (saveBook_success False data s)) (item_id data)
        = Some (gradientFromIndex (nextColorIndex (colorMap s)))"
    by (simp add: saveBook_success_def resetForm_def setMessage_def update_conv')
  from save_other save_new show ?thesis
    by (simp add: assignColors_idem assignPalette_keeps)
       (simp add: assignColors_def assignLoop_keeps assignLoop_new
        gradientFromIndex_def GOLDEN_ANGLE_def FULL_TURN_def GRADIENT_STEP_def
        BASE_SATURATION_def BASE_LIGHTNESS_def Let_def)
qed

text \<open>
  A shelf on which book 7 already has the gradient of index 0, refreshed with the list
  7, 9, 7, 4: book 7 keeps its gradient, and 9, the first new id, receives the gradient of
  index 1.
\<close>

definition refreshed :: "item list" where
  "refreshed = [\<lparr>item_id = 7, item_name = js ''Dune''\<rparr>, \<lparr>item_id = 9, item_name = js ''Emma''\<rparr>,
                \<lparr>item_id = 7, item_name = js ''Dune''\<rparr>, \<lparr>item_id = 4, item_name = js ''Ulysses''\<rparr>]"

theorem assignColors_first_seen_witness:
  "map_of [(7, gradientFromIndex 0)] 7 = Some (gradientFromIndex 0) \<and>
   map_of (assignColors refreshed [(7, gradientFromIndex 0)]) 7 = Some (gradientFromIndex 0) \<and>
   newIds [(7, gradientFromIndex 0)] refreshed = [9, 4] \<and>
   map_of (assignColors refreshed [(7, gradientFromIndex 0)]) 9 = Some (gradientFromIndex 1) \<and>
   map_of (colorMap (saveBook_success True \<lparr>item_id = 4, item_name = js ''Ulysses''\<rparr>
                       (init\<lparr>colorMap := [(7, gradientFromIndex 0)]\<rparr>))) 7
     = Some (gradientFromIndex 0) \<and>
   map_of (colorMap (saveBook_success False \<lparr>item_id = 4, item_name = js ''Ulysses''\<rparr>
                       (init\<lparr>colorMap := [(7, gradientFromIndex 0)]\<rparr>))) 4
     = Some (gradientFromIndex 1) \<and>
   map_of (assignPalette (\<lambda>n. 3) 0 refreshed [(7, pickColor 0)]) 7 = Some (pickColor 0)"
proof -
  note T = assignColors_first_seen[of "[(7, gradientFromIndex 0)]" 7 "gradientFromIndex 0" refreshed
      0 0 "\<lparr>item_id = 4, item_name = js ''Ulysses''\<rparr>" _
      "init\<lparr>colorMap := [(7, gradientFromIndex 0)]\<rparr>" "[(7, pickColor 0)]" "pickColor 0"
      "\<lambda>n. 3" 0]
  note rest = T[THEN conjunct2, THEN conjunct2, THEN conjunct2, THEN conjunct2, THEN conjunct2,
      THEN conjunct2]
  have n: "newIds [(7, gradientFromIndex 0)] refreshed = [9, 4]"
    by (simp add: newIds_def refreshed_def)
  from T[THEN conjunct1]
  have a: "map_of (assignColors refreshed [(7, gradientFromIndex 0)]) 7 = Some (gradientFromIndex 0)"
    by simp
  from T[THEN conjunct2, THEN conjunct1] n
  have b: "map_of (assignColors refreshed [(7, gradientFromIndex 0)]) 9 = Some (gradientFromIndex 1)"
    by (simp add: nextColorIndex_def)
  from rest[of True, THEN conjunct1]
  have c: "map_of (colorMap (saveBook_success True \<lparr>item_id = 4, item_name = js ''Ulysses''\<rparr>
                       (init\<lparr>colorMap := [(7, gradientFromIndex 0)]\<rparr>))) 7
              = Some (gradientFromIndex 0)"
    by (simp add: init_def)
  from rest[of False, THEN conjunct2, THEN conjunct1]
  have e: "map_of (colorMap (saveBook_success False \<lparr>item_id = 4, item_name = js ''Ulysses''\<rparr>
                       (init\<lparr>colorMap := [(7, gradientFromIndex 0)]\<rparr>))) 4
              = Some (gradientFromIndex 1)"
    by (simp add: nextColorIndex_def init_def)
  from rest[of False, THEN conjunct2, THEN conjunct2]
  have d: "map_of (assignPalette (\<lambda>n. 3) 0 refreshed [(7, pickColor 0)]) 7 = Some (pickColor 0)"
    by simp
  from n a b c d e show ?thesis by simp
qed

section \<open>Saving with a blank title\<close>

lemma trim_blank:
  assumes "list_all is_space str"
  shows "trim str = []"
  using assms by (auto simp: trim_def list_all_iff dest: set_dropWhileD)

text \<open>
  Claim C8.  When the title in the form is empty or consists only of code units that
  \<^verbatim>\<open>trim\<close> removes (white space and line terminators, ASCII or not), submitting the form
  changes nothing but the status message: no request is added to the pending ones, the
  books, the colours, the title and the book being edited stay as they are, and the call
  returns normally.
\<close>

theorem saveBook_blank_title:
  assumes "list_all is_space (formName s)"
  shows "step s Submit
           = Some (s\<lparr>statusMessage := js ''Give the book a title before saving.''\<rparr>)"
  using assms by (simp add: saveBook_def setMessage_def trim_blank)

text \<open>
  A title of a space, a no-break space, an ideographic space, an em space and a tab.
\<close>

definition blank_title :: jsstring where
  "blank_title = [0x20, 0xA0, 0x3000, 0x2003, 0x09]"

theorem saveBook_blank_title_witness:
  "list_all is_space (formName (init\<lparr>formName := blank_title\<rparr>)) \<and>
   step (init\<lparr>formName := blank_title\<rparr>) Submit
     = Some (init\<lparr>formName := blank_title,
                   statusMessage := js ''Give the book a title before saving.''\<rparr>)"
  using saveBook_blank_title[of "init\<lparr>formName := blank_title\<rparr>"]
  by (simp add: is_space_def blank_title_def)

section \<open>Removing a book\<close>

definition removeFailed :: "outcome \<Rightarrow> bool" where
  "removeFailed out =
     (case out of Rejected msg \<Rightarrow> True
      | Response status \<Rightarrow> \<not> ok status \<and> status \<noteq> 204
      | Json b \<Rightarrow> False | JsonRejected msg \<Rightarrow> False)"

definition removeFailureText :: "outcome \<Rightarrow> jsstring" where
  "removeFailureText out =
     (case out of Rejected msg \<Rightarrow> js msg
      | Response status \<Rightarrow> js ''Could not remove the book. Is the API running?''
      | Json b \<Rightarrow> [] | JsonRejected msg \<Rightarrow> [])"

text \<open>
  Claim C10.  Asking to remove a book changes the status message and adds the request.
  When the request is rejected, or answered with a status that is neither 2xx nor 204, the
  state afterwards is the state before with the error as status message and the request
  gone from the pending ones: books, colours and the book being edited are untouched.  The
  book and its colour leave the shelf only when the request succeeds.
\<close>

theorem removeBook_atomic:
  assumes "map_of (pending s) fid = Some (RemoveBook i)"
  shows "(removeFailed out \<longrightarrow>
            settle fid out s
              = Some (s\<lparr>statusMessage := removeFailureText out,
                        pending := filter (\<lambda>p. fst p \<noteq> fid) (pending s)\<rparr>))
       \<and> (ok status \<or> status = 204 \<longrightarrow>
            (\<exists>s'. settle fid (Response status) s = Some s'
               \<and> books s' = filter (\<lambda>book. item_id book \<noteq> i) (books s)
               \<and> colorMap s' = AList.delete i (colorMap s)))
       \<and> step s (ClickDelete i)
            = Some (s\<lparr>statusMessage := js ''Sending this book back to the library...'',
                      pending := pending s @ [(nextFetch s, RemoveBook i)],
                      nextFetch := Suc (nextFetch s)\<rparr>)"
proof (intro conjI impI)
  assume "removeFailed out"
  with assms show "settle fid out s
              = Some (s\<lparr>statusMessage := removeFailureText out,
                        pending := filter (\<lambda>p. fst p \<noteq> fid) (pending s)\<rparr>)"
    by (cases out)
      (simp_all add: removeFailed_def removeFailureText_def settle_def removeBook_resume_def
        setMessage_def)
next
  assume "ok status \<or> status = 204"
  with assms show "\<exists>s'. settle fid (Response status) s = Some s'
               \<and> books s' = filter (\<lambda>book. item_id book \<noteq> i) (books s)
               \<and> colorMap s' = AList.delete i (colorMap s)"
    by (auto simp: settle_def removeBook_resume_def removeBook_success_def setMessage_def
        resetForm_def Let_def)
next
  show "step s (ClickDelete i)
            = Some (s\<lparr>statusMessage := js ''Sending this book back to the library...'',
                      pending := pending s @ [(nextFetch s, RemoveBook i)],
                      nextFetch := Suc (nextFetch s)\<rparr>)"
    by (simp add: removeBook_def setMessage_def)
qed

definition shelf :: app where
  "shelf = init\<lparr>books := [\<lparr>item_id = 7, item_name = js ''Dune''\<rparr>],
                colorMap := [(7, gradientFromIndex 0)], editingId := Some 7,
                pending := [(0, RemoveBook 7)], nextFetch := 1\<rparr>"

theorem removeBook_atomic_witness:
  "map_of (pending shelf) 0 = Some (RemoveBook 7) \<and>
   settle 0 (Response 500) shelf
     = Some (shelf\<lparr>statusMessage := js ''Could not remove the book. Is the API running?'',
                   pending := []\<rparr>) \<and>
   (\<exists>s'. settle 0 (Response 204) shelf = Some s' \<and> books s' = [] \<and> colorMap s' = [])"
proof -
  have p: "map_of (pending shelf) 0 = Some (RemoveBook 7)" by (simp add: shelf_def)
  have f: "removeFailed (Response 500)" by (simp add: removeFailed_def ok_def)
  from removeBook_atomic[OF p, of "Response 500" 204] f p show ?thesis
    by (simp add: removeFailureText_def shelf_def)
qed

section \<open>Silent retries in flight\<close>

text \<open>
  A pending \<^verbatim>\<open>fetchBooks\<close> call is a silent retry when it was made with \<^verbatim>\<open>silent: true\<close>; only
  \<^verbatim>\<open>tryFetchDuringBanner\<close> makes such calls.  The pending requests are well formed when their
  ids are distinct and already issued, the silent calls are exactly those that return into
  \<^verbatim>\<open>tryFetchDuringBanner\<close>, and their number is one when the guard flag is set and zero
  otherwise.
\<close>

fun retry_frame :: "frame \<Rightarrow> bool" where
  "retry_frame (FetchBooks f) = silent f"
| "retry_frame (SaveBook e st) = False"
| "retry_frame (RemoveBook i) = False"

fun frame_wf :: "frame \<Rightarrow> bool" where
  "frame_wf (FetchBooks f) =
     ((silent f \<longleftrightarrow> caller f \<noteq> Top) \<and> (silent f \<longrightarrow> \<not> triggerBannerOnFailure f))"
| "frame_wf (SaveBook e st) = True"
| "frame_wf (RemoveBook i) = True"

definition inFlight :: "app \<Rightarrow> (nat \<times> frame) list" where
  "inFlight s = filter (\<lambda>p. retry_frame (snd p)) (pending s)"

definition wfp :: "(nat \<times> frame) list \<Rightarrow> nat \<Rightarrow> bool \<Rightarrow> bool" where
  "wfp ps n fl \<longleftrightarrow>
     distinct (map fst ps) \<and> (\<forall>p \<in> set ps. fst p < n \<and> frame_wf (snd p)) \<and>
     length (filter (\<lambda>p. retry_frame (snd p)) ps) = (if fl then 1 else 0)"

definition wf :: "app \<Rightarrow> bool" where
  "wf s = wfp (pending s) (nextFetch s) (bannerFetchInFlight s)"

lemma wfp_append_top:
  "wfp ps n fl \<Longrightarrow> \<not> retry_frame fr \<Longrightarrow> frame_wf fr \<Longrightarrow> wfp (ps @ [(n, fr)]) (Suc n) fl"
  by (fastforce simp: wfp_def)

lemma wfp_append_retry:
  "wfp ps n False \<Longrightarrow> retry_frame fr \<Longrightarrow> frame_wf fr \<Longrightarrow> wfp (ps @ [(n, fr)]) (Suc n) True"
  by (fastforce simp: wfp_def)

lemma filter_delete_other:
  assumes "distinct (map fst ps)" "map_of ps fid = Some fr" "\<not> P (fid, fr)"
  shows "filter P (filter (\<lambda>p. fst p \<noteq> fid) ps) = filter P ps"
proof -
  have "\<And>p. p \<in> set ps \<Longrightarrow> (fst p \<noteq> fid \<and> P p) = P p"
  proof -
    fix p assume "p \<in> set ps"
    then have "(fst p, snd p) \<in> set ps" by simp
    with assms(1) have "map_of ps (fst p) = Some (snd p)" by (rule map_of_is_SomeI)
    with assms(2,3) show "(fst p \<noteq> fid \<and> P p) = P p" by (cases p) auto
  qed
  then show ?thesis by (simp cong: filter_cong)
qed

lemma length_filter_delete_one:
  "distinct (map fst ps) \<Longrightarrow> map_of ps fid = Some fr \<Longrightarrow> P (fid, fr) \<Longrightarrow>
   Suc (length (filter P (filter (\<lambda>p. fst p \<noteq> fid) ps))) = length (filter P ps)"
proof (induction ps)
  case Nil
  then show ?case by simp
next
  case (Cons a ps)
  show ?case
  proof (cases "fst a = fid")
    case True
    with Cons.prems have a: "a = (fid, fr)" by (cases a) simp
    from Cons.prems True have "fid \<notin> fst ` set ps" by simp
    then have "filter (\<lambda>p. fst p \<noteq> fid) ps = ps"
      by (auto simp: filter_id_conv)
    with a Cons.prems show ?thesis by simp
  next
    case False
    with Cons.prems have "map_of ps fid = Some fr" by (cases a) (simp split: if_splits)
    with Cons.prems have "Suc (length (filter P (filter (\<lambda>p. fst p \<noteq> fid) ps))) = length (filter P ps)"
      by (intro Cons.IH) simp_all
    with False show ?thesis by simp
  qed
qed

lemma wfp_delete_top:
  assumes "wfp ps n fl" "map_of ps fid = Some fr" "\<not> retry_frame fr"
  shows "wfp (filter (\<lambda>p. fst p \<noteq> fid) ps) n fl"
proof -
  from assms have "filter (\<lambda>p. retry_frame (snd p)) (filter (\<lambda>p. fst p \<noteq> fid) ps)
                 = filter (\<lambda>p. retry_frame (snd p)) ps"
    by (intro filter_delete_other[where fr = fr]) (simp_all add: wfp_def)
  with assms(1) show ?thesis
    unfolding wfp_def by (simp add: distinct_map_filter)
qed

lemma wfp_delete_retry:
  assumes "wfp ps n fl" "map_of ps fid = Some fr" "retry_frame fr"
  shows "fl \<and> wfp (filter (\<lambda>p. fst p \<noteq> fid) ps) n False"
proof -
  from assms have "Suc (length (filter (\<lambda>p. retry_frame (snd p)) (filter (\<lambda>p. fst p \<noteq> fid) ps)))
                 = length (filter (\<lambda>p. retry_frame (snd p)) ps)"
    by (intro length_filter_delete_one[where fr = fr]) (simp_all add: wfp_def)
  with assms(1) show ?thesis
    unfolding wfp_def by (simp add: distinct_map_filter split: if_splits)
qed

lemma wfp_member:
  "wfp ps n fl \<Longrightarrow> map_of ps fid = Some fr \<Longrightarrow> fid < n \<and> frame_wf fr"
  by (auto simp: wfp_def dest!: map_of_SomeD)

lemma wfp_readd:
  assumes "wfp (filter (\<lambda>p. fst p \<noteq> fid) ps) n fl" "fid < n" "frame_wf fr" "\<not> retry_frame fr"
  shows "wfp (filter (\<lambda>p. fst p \<noteq> fid) ps @ [(fid, fr)]) n fl"
  using assms unfolding wfp_def by auto

lemma wfp_readd_retry:
  assumes "wfp (filter (\<lambda>p. fst p \<noteq> fid) ps) n False" "fid < n" "frame_wf fr" "retry_frame fr"
  shows "wfp (filter (\<lambda>p. fst p \<noteq> fid) ps @ [(fid, fr)]) n True"
  using assms unfolding wfp_def by auto

lemma kickoff_frame_same [simp]:
  "retry_frame (kickoff_frame v fr) = retry_frame fr"
  "frame_wf (kickoff_frame v fr) = frame_wf fr"
  by (cases fr; simp)+

lemma wfp_set_kickoff: "wfp ps n fl \<Longrightarrow> wfp (set_kickoff fid v ps) n fl"
proof -
  have k: "map fst (set_kickoff fid v ps) = map fst ps"
    by (induction ps) (auto simp: set_kickoff_def)
  have r: "length (filter (\<lambda>p. retry_frame (snd p)) (set_kickoff fid v ps))
           = length (filter (\<lambda>p. retry_frame (snd p)) ps)"
    by (induction ps) (auto simp: set_kickoff_def)
  assume "wfp ps n fl"
  then show ?thesis
    unfolding wfp_def k r
    by (auto simp: set_kickoff_def)
qed


lemma wf_clearTimer [simp]: "wf (clearTimer h s) = wf s"
  by (simp add: wf_def clearTimer_def split: option.splits)

lemma wf_clearBannerTimers [simp]: "wf (clearBannerTimers s) = wf s"
  by (simp add: wf_def clearBannerTimers_def clearTimer_def Let_def split: option.splits)

lemma wf_hideBanner [simp]: "wf (hideBanner s) = wf s"
  by (simp add: hideBanner_def) (simp add: wf_def)

lemma wf_graceExpiry [simp]: "wf (graceExpiry cell s) = wf s"
  by (simp add: wf_def graceExpiry_def setTimeout_def clearTimer_def Let_def split: option.splits)

lemma wf_resume_after_retry [simp]: "wf (resume_after_retry k s) = wf s"
  by (cases k) simp_all

lemma wf_startGracePeriod [simp]: "wf (startGracePeriod s) = wf s"
  by (simp add: wf_def startGracePeriod_def setInterval_def Let_def)

lemma wf_countdownExpiry [simp]: "wf (countdownExpiry s) = wf s"
  by (simp add: countdownExpiry_def) (simp add: wf_def clearTimer_def split: option.splits)

lemma wf_fetchBooks_top:
  "wf s \<Longrightarrow> wf (fetchBooks False trig allow Top s)"
  by (simp add: wf_def fetchBooks_def setMessage_def setTimeout_def Let_def wfp_append_top)

lemma wf_tryFetchDuringBanner: "wf s \<Longrightarrow> wf (tryFetchDuringBanner k s)"
proof (cases "bannerFetchInFlight s")
  case True
  assume "wf s"
  with True show ?thesis by (simp add: tryFetchDuringBanner_def)
next
  case False
  assume "wf s"
  with False have "wfp (pending s) (nextFetch s) False" by (simp add: wf_def)
  then have "wfp (pending s @ [(nextFetch s, FetchBooks \<lparr>silent = True,
                 triggerBannerOnFailure = False, allowImmediateFailure = True,
                 bannerKickoffPending = False, awaiting = AwaitFetch, caller = Retry k\<rparr>)])
               (Suc (nextFetch s)) True"
    by (rule wfp_append_retry) simp_all
  with False show ?thesis
    by (simp add: tryFetchDuringBanner_def wf_def fetchBooks_def Let_def)
qed

lemma wf_banner_fields:
  "wf (s\<lparr>bannerVisible := a, bannerFailureMessage := b, bannerPhase := c, bannerMessage := d,
         bannerCountdown := e\<rparr>) = wf s"
  by (simp add: wf_def)

lemma wf_startServerWakeBanner: "wf s \<Longrightarrow> wf (startServerWakeBanner imm msg s)"
proof (cases imm)
  case True
  assume "wf s"
  with True show ?thesis
    by (simp add: startServerWakeBanner_def setTimeout_def Let_def wf_def)
next
  case False
  assume "wf s"
  then have "wf (s\<lparr>bannerVisible := True, bannerFailureMessage := msg, bannerPhase := Countdown,
                   bannerMessage := ''Starting server, it usually takes'',
                   bannerCountdown := Some 25\<rparr>)" (is "wf ?s2")
    by (simp add: wf_def)
  then have "wf (tryFetchDuringBanner Detached ?s2)" by (rule wf_tryFetchDuringBanner)
  then show ?thesis using False
    by (simp add: startServerWakeBanner_def setInterval_def Let_def split_def) (simp add: wf_def)
qed

lemma wf_run_callback: "wf s \<Longrightarrow> wf (run_callback cb s)"
proof (cases cb)
  case (BannerDelay fid)
  assume w: "wf s"
  define s1 where "s1 = (if \<not> bannerVisible s \<and> loading s
                then startServerWakeBanner False ''Unable to load books'' s else s)"
  from w have "wf s1" by (simp add: s1_def wf_startServerWakeBanner)
  then have "wfp (set_kickoff fid False (pending s1)) (nextFetch s1) (bannerFetchInFlight s1)"
    unfolding wf_def by (rule wfp_set_kickoff)
  then have "wf (s1\<lparr>pending := set_kickoff fid False (pending s1), bannerDelayTimer := None\<rparr>)"
    by (simp add: wf_def)
  with BannerDelay show ?thesis by (simp add: Let_def s1_def)
next
  case CountdownTick
  assume w: "wf s"
  have "\<And>c. wf (tryFetchDuringBanner Detached (s\<lparr>bannerCountdown := Some c\<rparr>))"
    using w by (intro wf_tryFetchDuringBanner) (simp add: wf_def)
  with CountdownTick w show ?thesis by (simp split: option.splits)
next
  case (GraceTick cell)
  assume w: "wf s"
  have "wf (tryFetchDuringBanner (GraceCheck cell)
              (s\<lparr>secondsLeft := (secondsLeft s)(cell := secondsLeft s cell - 1)\<rparr>))"
    using w by (intro wf_tryFetchDuringBanner) (simp add: wf_def)
  with GraceTick show ?thesis by simp
next
  case FinalHide
  assume "wf s"
  with FinalHide show ?thesis by simp
qed

lemma wf_fire: "wf s \<Longrightarrow> fire s = Some s' \<Longrightarrow> wf s'"
proof -
  assume w: "wf s" and f: "fire s = Some s'"
  from f obtain h t where e: "earliest (timers s) = Some (h, t)"
      and s': "s' = run_callback (callback t) (s\<lparr>clock := due t, timers := rearm h t (timers s)\<rparr>)"
    by (auto simp: fire_def split: option.splits)
  from w have "wf (s\<lparr>clock := due t, timers := rearm h t (timers s)\<rparr>)" by (simp add: wf_def)
  then show ?thesis unfolding s' by (rule wf_run_callback)
qed


lemma wf_fetchBooks_finally [simp]: "wf (fetchBooks_finally f s) = wf s"
  by (simp add: wf_def fetchBooks_finally_def clearTimer_def Let_def split: option.splits)

lemma wf_setMessage [simp]: "wf (setMessage m s) = wf s"
  by (simp add: wf_def setMessage_def)

lemma wf_resetForm [simp]: "wf (resetForm s) = wf s"
  by (simp add: wf_def resetForm_def)

definition wf_returning :: "app \<Rightarrow> bool" where
  "wf_returning s = wfp (pending s) (nextFetch s) False"

lemma wf_flag_reset [simp]: "wf (s\<lparr>bannerFetchInFlight := False\<rparr>) = wf_returning s"
  by (simp add: wf_returning_def wf_def)

lemma wf_clear_delay [simp]: "wf ((clearTimer h s)\<lparr>bannerDelayTimer := None\<rparr>) = wf s"
  by (simp add: wf_def clearTimer_def split: option.splits)

lemma wf_returning_finally [simp]: "wf_returning (fetchBooks_finally f s) = wf_returning s"
  by (simp add: wf_returning_def fetchBooks_finally_def clearTimer_def Let_def split: option.splits)

lemma wf_returning_hideBanner [simp]: "wf_returning (hideBanner s) = wf_returning s"
  by (simp add: wf_returning_def hideBanner_def clearBannerTimers_def clearTimer_def Let_def
      split: option.splits)

lemma wf_catch_top:
  assumes "wf s" "caller f = Top"
  shows "wf (fetchBooks_catch f hasResponse msg s)"
  using assms by (auto simp: fetchBooks_catch_def Let_def intro!: wf_startServerWakeBanner)

lemma wf_catch_retry:
  assumes "wf_returning s" "silent f" "\<not> triggerBannerOnFailure f" "caller f = Retry k"
  shows "wf (fetchBooks_catch f hasResponse msg s)"
  using assms by (simp add: fetchBooks_catch_def Let_def)

lemma wf_success_top:
  assumes "wf s" "caller f = Top"
  shows "wf (fetchBooks_success f data s)"
  using assms by (simp add: fetchBooks_success_def Let_def) (simp add: wf_def)

lemma wf_success_retry:
  assumes "wf_returning s" "caller f = Retry k"
  shows "wf (fetchBooks_success f data s)"
proof -
  from assms(1) have "wf_returning (setMessage (js ''Reading list refreshed. Ready for more stories!'')
           (s\<lparr>books := data, colorMap := assignColors data (colorMap s)\<rparr>))"
    by (simp add: wf_returning_def setMessage_def)
  with assms(2) show ?thesis
    by (simp add: fetchBooks_success_def Let_def)
qed

lemma wf_fetchBooks_resume:
  assumes w: "wf s" and m: "map_of (pending s) fid = Some (FetchBooks f)"
      and r: "fetchBooks_resume fid f out (s\<lparr>pending := filter (\<lambda>p. fst p \<noteq> fid) (pending s)\<rparr>) = Some s'"
  shows "wf s'"
proof -
  let ?s0 = "s\<lparr>pending := filter (\<lambda>p. fst p \<noteq> fid) (pending s)\<rparr>"
  from w m have fw: "fid < nextFetch s" "frame_wf (FetchBooks f)"
    unfolding wf_def by (auto dest: wfp_member)
  show ?thesis
  proof (cases "silent f")
    case True
    with fw obtain k where k: "caller f = Retry k" and nt: "\<not> triggerBannerOnFailure f"
      by (cases "caller f") auto
    from w m True have fl: "bannerFetchInFlight s" and w0: "wf_returning ?s0"
      unfolding wf_def wf_returning_def
      using wfp_delete_retry[of "pending s" "nextFetch s" "bannerFetchInFlight s" fid "FetchBooks f"]
      by simp_all
    have again: "wf (?s0\<lparr>pending := pending ?s0 @ [(fid, FetchBooks (f\<lparr>awaiting := AwaitJson\<rparr>))]\<rparr>)"
      using w0 fw True k nt fl unfolding wf_def wf_returning_def
      by (simp add: wfp_readd_retry)
    from r show ?thesis
      using wf_catch_retry[OF w0 True nt k] wf_success_retry[OF w0 k] again
      by (auto simp: fetchBooks_resume_def split: stage.splits outcome.splits body.splits if_splits)
  next
    case False
    with fw have k: "caller f = Top" by simp
    from w m False have w0: "wf ?s0"
      unfolding wf_def
      using wfp_delete_top[of "pending s" "nextFetch s" "bannerFetchInFlight s" fid "FetchBooks f"]
      by simp
    have again: "wf (?s0\<lparr>pending := pending ?s0 @ [(fid, FetchBooks (f\<lparr>awaiting := AwaitJson\<rparr>))]\<rparr>)"
      using w0 fw False k unfolding wf_def
      by (simp add: wfp_readd)
    from r show ?thesis
      using wf_catch_top[OF w0 k] wf_success_top[OF w0 k] again
      by (auto simp: fetchBooks_resume_def split: stage.splits outcome.splits body.splits if_splits)
  qed
qed

lemma wf_saveBook_success [simp]: "wf (saveBook_success e data s) = wf s"
  by (simp add: saveBook_success_def) (simp add: wf_def setMessage_def split: option.splits)

lemma wf_removeBook_success [simp]: "wf (removeBook_success i s) = wf s"
  by (simp add: removeBook_success_def Let_def) (simp add: wf_def setMessage_def)

lemma wf_settle:
  assumes w: "wf s" and r: "settle fid out s = Some s'"
  shows "wf s'"
proof -
  let ?s0 = "s\<lparr>pending := filter (\<lambda>p. fst p \<noteq> fid) (pending s)\<rparr>"
  from r obtain fr where m: "map_of (pending s) fid = Some fr"
    by (auto simp: settle_def split: option.splits)
  show ?thesis
  proof (cases fr)
    case (FetchBooks f)
    with r m have "fetchBooks_resume fid f out ?s0 = Some s'" by (simp add: settle_def)
    with w m FetchBooks show ?thesis by (auto intro: wf_fetchBooks_resume)
  next
    case (SaveBook e st)
    from w m SaveBook have w0: "wf ?s0" and lt: "fid < nextFetch s"
      unfolding wf_def
      using wfp_delete_top[of "pending s" "nextFetch s" "bannerFetchInFlight s" fid fr]
        wfp_member[of "pending s" "nextFetch s" "bannerFetchInFlight s" fid fr]
      by simp_all
    have again: "wf (?s0\<lparr>pending := pending ?s0 @ [(fid, SaveBook e AwaitJson)]\<rparr>)"
      using w0 lt unfolding wf_def by (simp add: wfp_readd)
    from r m SaveBook have "saveBook_resume fid e st out ?s0 = Some s'" by (simp add: settle_def)
    with w0 again show ?thesis
      by (auto simp: saveBook_resume_def split: stage.splits outcome.splits body.splits if_splits)
  next
    case (RemoveBook i)
    from w m RemoveBook have w0: "wf ?s0"
      unfolding wf_def
      using wfp_delete_top[of "pending s" "nextFetch s" "bannerFetchInFlight s" fid fr]
      by simp
    from r m RemoveBook have "removeBook_resume i out ?s0 = Some s'" by (simp add: settle_def)
    with w0 show ?thesis
      by (auto simp: removeBook_resume_def split: outcome.splits if_splits)
  qed
qed

lemma wf_step:
  assumes "wf s" "step s e = Some s'"
  shows "wf s'"
proof (cases e)
  case Mount
  with assms show ?thesis by (auto simp: initializeBooks_def wf_fetchBooks_top)
next
  case Unmount
  with assms show ?thesis by auto
next
  case Tick
  with assms show ?thesis by (auto intro: wf_fire)
next
  case (Wait d)
  with assms show ?thesis by (auto simp: wf_def split: if_splits)
next
  case (Settle fid out)
  with assms show ?thesis by (auto intro: wf_settle)
next
  case ClickRefresh
  with assms show ?thesis by (auto simp: wf_fetchBooks_top)
next
  case Submit
  with assms show ?thesis
    by (auto simp: saveBook_def Let_def wf_def setMessage_def wfp_append_top)
next
  case (ClickEdit book)
  with assms show ?thesis by (auto simp: startEdit_def) (simp add: wf_def)
next
  case (ClickDelete i)
  with assms show ?thesis
    by (auto simp: removeBook_def Let_def wf_def setMessage_def wfp_append_top)
next
  case ClickCancel
  with assms show ?thesis by auto
next
  case (Input str)
  with assms show ?thesis by (auto simp: wf_def)
qed

lemma wf_run: "wf s \<Longrightarrow> run s evs = Some s' \<Longrightarrow> wf s'"
proof (induction evs arbitrary: s)
  case Nil
  then show ?case by simp
next
  case (Cons e evs)
  then show ?case by (auto split: option.splits dest: wf_step)
qed

lemma wf_init: "wf init"
  by (simp add: wf_def wfp_def init_def)


lemma suppressed_retry:
  "bannerFetchInFlight s \<Longrightarrow> tryFetchDuringBanner k s = resume_after_retry k s"
  by (simp add: tryFetchDuringBanner_def)

lemma graceExpiry_frame [simp]:
  "pending (graceExpiry cell s) = pending s"
  "nextFetch (graceExpiry cell s) = nextFetch s"
  "secondsLeft (graceExpiry cell s) = secondsLeft s"
  "bannerCountdown (graceExpiry cell s) = bannerCountdown s"
  by (simp_all add: graceExpiry_def setTimeout_def clearTimer_def Let_def split: option.splits)

lemma countdownExpiry_frame [simp]:
  "pending (countdownExpiry s) = pending s"
  "nextFetch (countdownExpiry s) = nextFetch s"
  by (simp_all add: countdownExpiry_def startGracePeriod_def setInterval_def clearTimer_def
      Let_def split: option.splits)

lemma hideBanner_frame [simp]:
  "pending (hideBanner s) = pending s"
  "nextFetch (hideBanner s) = nextFetch s"
  by (simp_all add: hideBanner_def clearBannerTimers_def clearTimer_def Let_def
      split: option.splits)

lemma startServerWakeBanner_suppressed:
  "bannerFetchInFlight s \<Longrightarrow>
     pending (startServerWakeBanner imm msg s) = pending s \<and>
     nextFetch (startServerWakeBanner imm msg s) = nextFetch s"
  by (simp add: startServerWakeBanner_def suppressed_retry setTimeout_def setInterval_def
      Let_def)

lemma map_fst_set_kickoff [simp]: "map fst (set_kickoff fid v ps) = map fst ps"
  by (induction ps) (auto simp: set_kickoff_def)

lemma suppressed_callback:
  assumes "bannerFetchInFlight s"
  shows "nextFetch (run_callback cb s) = nextFetch s"
    and "map fst (pending (run_callback cb s)) = map fst (pending s)"
    and "cb = CountdownTick \<Longrightarrow> bannerCountdown s = Some c \<Longrightarrow> 1 < c \<Longrightarrow>
         bannerCountdown (run_callback cb s) = Some (c - 1)"
    and "cb = GraceTick cell \<Longrightarrow>
         secondsLeft (run_callback cb s) cell = secondsLeft s cell - 1"
  using assms
  by (cases cb; simp add: suppressed_retry startServerWakeBanner_suppressed Let_def
        split: option.splits)+

text \<open>What a timer tick does while a silent retry is in flight.\<close>

definition tick_without_request :: "app \<Rightarrow> app \<Rightarrow> bool" where
  "tick_without_request s s' \<longleftrightarrow>
     nextFetch s' = nextFetch s \<and> map fst (pending s') = map fst (pending s) \<and>
     (case earliest (timers s) of
        None \<Rightarrow> True
      | Some (h, t) \<Rightarrow>
          (case callback t of
             CountdownTick \<Rightarrow>
               (case bannerCountdown s of
                  None \<Rightarrow> True
                | Some c \<Rightarrow> if 1 < c then bannerCountdown s' = Some (c - 1) else True)
           | GraceTick cell \<Rightarrow> secondsLeft s' cell = secondsLeft s cell - 1
           | BannerDelay fid \<Rightarrow> True
           | FinalHide \<Rightarrow> True))"

text \<open>
  Claim C3.  In every state the component reaches from its initial state, whatever the
  events, at most one silent retry is in flight, and one is in flight exactly when the
  guard flag is set.  A timer tick in such a state issues no request: the pending requests
  are the same ones, and the tick still counts down (the countdown by one while it is above
  1, the grace period's seconds by one).
\<close>

theorem one_retry_in_flight:
  assumes "run init evs = Some s"
  shows "length (inFlight s) \<le> 1 \<and> (bannerFetchInFlight s \<longleftrightarrow> inFlight s \<noteq> []) \<and>
         (\<forall>s'. bannerFetchInFlight s \<and> step s Tick = Some s' \<longrightarrow> tick_without_request s s')"
proof -
  from wf_init assms have w: "wf s" by (rule wf_run)
  then have a: "length (inFlight s) \<le> 1 \<and> (bannerFetchInFlight s \<longleftrightarrow> inFlight s \<noteq> [])"
    by (auto simp: wf_def wfp_def inFlight_def split: if_splits)
  have b: "tick_without_request s s'" if fl: "bannerFetchInFlight s" and st: "step s Tick = Some s'" for s'
  proof -
    from st obtain h t where e: "earliest (timers s) = Some (h, t)"
      and s': "s' = run_callback (callback t) (s\<lparr>clock := due t, timers := rearm h t (timers s)\<rparr>)"
      by (auto simp: fire_def split: option.splits)
    let ?s1 = "s\<lparr>clock := due t, timers := rearm h t (timers s)\<rparr>"
    from fl have fl1: "bannerFetchInFlight ?s1" by simp
    show ?thesis
      unfolding tick_without_request_def s' using e
      by (simp add: suppressed_callback[OF fl1] del: run_callback.simps
            split: callback.splits option.splits)
  qed
  from a b show ?thesis by blast
qed

text \<open>
  The theorem at work two ticks into a countdown, with the retry of the banner's start
  still in flight: the third tick issues nothing and shows 23.
\<close>

theorem one_retry_in_flight_witness:
  "run init [Mount, Tick, Tick] \<noteq> None \<and>
   length (inFlight (the (run init [Mount, Tick, Tick]))) = 1 \<and>
   bannerFetchInFlight (the (run init [Mount, Tick, Tick])) \<and>
   (\<exists>s'. step (the (run init [Mount, Tick, Tick])) Tick = Some s' \<and>
         nextFetch s' = 2 \<and> bannerCountdown s' = Some 23)"
proof -
  let ?s = "the (run init [Mount, Tick, Tick])"
  have r: "run init [Mount, Tick, Tick] = Some ?s"
    by (simp add: init_def initializeBooks_def fetchBooks_def setMessage_def setTimeout_def
        setInterval_def fire_def rearm_def startServerWakeBanner_def tryFetchDuringBanner_def
        set_kickoff_def Let_def)
  have e: "bannerFetchInFlight ?s \<and> nextFetch ?s = 2 \<and> bannerCountdown ?s = Some 24 \<and>
           length (inFlight ?s) = 1 \<and>
           earliest (timers ?s) = Some (2, \<lparr>due = 3200, period = Some 1000, callback = CountdownTick\<rparr>)"
    by (simp add: init_def initializeBooks_def fetchBooks_def setMessage_def setTimeout_def
        setInterval_def fire_def rearm_def startServerWakeBanner_def tryFetchDuringBanner_def
        set_kickoff_def Let_def inFlight_def)
  then obtain s' where s': "step ?s Tick = Some s'" by (auto simp: fire_def)
  with one_retry_in_flight[OF r] e have "tick_without_request ?s s'" by blast
  with e have "nextFetch s' = 2 \<and> bannerCountdown s' = Some 23"
    by (simp add: tick_without_request_def)
  with r e s' show ?thesis by auto
qed

section \<open>Running the component\<close>

text \<open>The definitions a concrete run is evaluated with.\<close>

lemmas model_defs = init_def initializeBooks_def fetchBooks_def setMessage_def resetForm_def
  setTimeout_def setInterval_def clearTimer_def fire_def rearm_def startServerWakeBanner_def
  tryFetchDuringBanner_def startGracePeriod_def countdownExpiry_def graceExpiry_def
  hideBanner_def clearBannerTimers_def settle_def fetchBooks_resume_def fetchBooks_catch_def
  fetchBooks_finally_def fetchBooks_success_def set_kickoff_def ok_def Let_def

lemma run_append:
  "run s (xs @ ys) = (case run s xs of None \<Rightarrow> None | Some s' \<Rightarrow> run s' ys)"
  by (induction xs arbitrary: s) (simp_all split: option.splits)

lemma replicate_numeral: "replicate (numeral k) x = x # replicate (pred_numeral k) x"
  by (simp add: numeral_eq_Suc)

text \<open>
  The banner is at rest: hidden, in its idle phase, with no timer registered and no silent
  retry in flight.
\<close>

definition quiet :: "app \<Rightarrow> bool" where
  "quiet s \<longleftrightarrow>
     \<not> bannerVisible s \<and> bannerPhase s = Idle \<and> bannerCountdown s = None \<and>
     countdownTimer s = None \<and> graceTimer s = None \<and> finalTimer s = None \<and>
     bannerDelayTimer s = None \<and> timers s = [] \<and> \<not> bannerFetchInFlight s \<and> wf s"

lemma wf_fresh: "wf s \<Longrightarrow> list_all (\<lambda>p. fst p < nextFetch s) (pending s)"
  by (simp add: wf_def wfp_def list_all_iff)

lemma map_of_fresh:
  "list_all (\<lambda>p. fst p < n) ps \<Longrightarrow> map_of (ps @ [(n::nat, fr)]) n = Some fr"
  by (induction ps) auto

lemma filter_fresh:
  "list_all (\<lambda>p. fst p < n) ps \<Longrightarrow> filter (\<lambda>p. fst p \<noteq> n) (ps @ [(n::nat, fr)]) = ps"
  by (induction ps) auto

section \<open>The manual refresh\<close>

text \<open>The ways in which the request of a \<^verbatim>\<open>fetchBooks\<close> call can fail.\<close>

definition fetch_failed :: "fetch_frame \<Rightarrow> outcome \<Rightarrow> bool" where
  "fetch_failed f out =
     (case out of
        Rejected msg \<Rightarrow> awaiting f = AwaitFetch
      | Response status \<Rightarrow> awaiting f = AwaitFetch \<and> \<not> ok status
      | Json b \<Rightarrow> False
      | JsonRejected msg \<Rightarrow> awaiting f = AwaitJson)"


lemma tryFetch_banner [simp]:
  "bannerPhase (tryFetchDuringBanner Detached s) = bannerPhase s"
  "bannerVisible (tryFetchDuringBanner Detached s) = bannerVisible s"
  "bannerCountdown (tryFetchDuringBanner Detached s) = bannerCountdown s"
  by (simp_all add: tryFetchDuringBanner_def fetchBooks_def Let_def)

lemma start_countdown_banner:
  "bannerPhase (startServerWakeBanner False msg s) = Countdown"
  "bannerVisible (startServerWakeBanner False msg s)"
  "bannerCountdown (startServerWakeBanner False msg s) = Some 25"
  by (simp_all add: startServerWakeBanner_def setInterval_def Let_def split_def)

lemma finally_banner [simp]:
  "bannerPhase (fetchBooks_finally f s) = bannerPhase s"
  "bannerVisible (fetchBooks_finally f s) = bannerVisible s"
  "bannerCountdown (fetchBooks_finally f s) = bannerCountdown s"
  by (simp_all add: fetchBooks_finally_def clearTimer_def Let_def split: option.splits)

lemma hideBanner_banner [simp]:
  "bannerPhase (hideBanner s) = Idle"
  "\<not> bannerVisible (hideBanner s)"
  "bannerCountdown (hideBanner s) = None"
  by (simp_all add: hideBanner_def clearBannerTimers_def clearTimer_def Let_def
      split: option.splits)

lemma catch_no_shortcut:
  assumes "\<not> allowImmediateFailure f" "caller f = Top"
  shows "bannerPhase (fetchBooks_catch f hasResponse msg s)
           = (if triggerBannerOnFailure f \<and> \<not> bannerVisible s then Countdown else bannerPhase s)"
    and "bannerVisible (fetchBooks_catch f hasResponse msg s)
           = (triggerBannerOnFailure f \<or> bannerVisible s)"
    and "bannerCountdown (fetchBooks_catch f hasResponse msg s)
           = (if triggerBannerOnFailure f \<and> \<not> bannerVisible s then Some 25
              else bannerCountdown s)"
  using assms
  by (auto simp: fetchBooks_catch_def Let_def start_countdown_banner setMessage_def)

text \<open>
  Claim C7.  The refresh button calls \<^verbatim>\<open>fetchBooks\<close> with \<^verbatim>\<open>allowImmediateFailure: false\<close>.
  However the request of such a call settles, the banner does not enter the failed phase
  through it; when the request fails while the banner is hidden (a rejected fetch with no
  response included), the banner starts in the countdown phase at 25.  The click itself
  leaves the phase as it is, and the kickoff delay timer of the call, when it starts the
  banner, starts the countdown too.
\<close>

theorem manual_refresh_countdown:
  assumes "map_of (pending s) fid = Some (FetchBooks f)"
      and "\<not> allowImmediateFailure f" and "caller f = Top"
      and "settle fid out s = Some s'"
  shows "(bannerPhase s' = Failed \<longrightarrow> bannerPhase s = Failed) \<and>
         (triggerBannerOnFailure f \<and> \<not> bannerVisible s \<and> fetch_failed f out \<longrightarrow>
            bannerVisible s' \<and> bannerPhase s' = Countdown \<and> bannerCountdown s' = Some 25) \<and>
         (\<exists>s1. step s ClickRefresh = Some s1 \<and> bannerPhase s1 = bannerPhase s \<and>
            pending s1 = pending s @
              [(nextFetch s, FetchBooks \<lparr>silent = False, triggerBannerOnFailure = True,
                  allowImmediateFailure = False, bannerKickoffPending = True,
                  awaiting = AwaitFetch, caller = Top\<rparr>)]) \<and>
         bannerPhase (run_callback (BannerDelay fid) s)
           = (if \<not> bannerVisible s \<and> loading s then Countdown else bannerPhase s)"
proof -
  let ?s0 = "s\<lparr>pending := filter (\<lambda>p. fst p \<noteq> fid) (pending s)\<rparr>"
  from assms(1,4) have r: "fetchBooks_resume fid f out ?s0 = Some s'"
    by (simp add: settle_def)
  note c = catch_no_shortcut[OF assms(2,3)]
  have a: "bannerPhase s' = Failed \<longrightarrow> bannerPhase s = Failed"
    using r assms(3)
    by (auto simp: fetchBooks_resume_def fetchBooks_success_def c Let_def
        split: stage.splits outcome.splits body.splits if_splits)
  have b: "triggerBannerOnFailure f \<and> \<not> bannerVisible s \<and> fetch_failed f out \<longrightarrow>
            bannerVisible s' \<and> bannerPhase s' = Countdown \<and> bannerCountdown s' = Some 25"
    using r
    by (auto simp: fetchBooks_resume_def fetch_failed_def c
        split: stage.splits outcome.splits body.splits if_splits)
  have d: "bannerPhase (run_callback (BannerDelay fid) s)
           = (if \<not> bannerVisible s \<and> loading s then Countdown else bannerPhase s)"
    by (simp add: Let_def start_countdown_banner)
  have e: "\<exists>s1. step s ClickRefresh = Some s1 \<and> bannerPhase s1 = bannerPhase s \<and>
            pending s1 = pending s @
              [(nextFetch s, FetchBooks \<lparr>silent = False, triggerBannerOnFailure = True,
                  allowImmediateFailure = False, bannerKickoffPending = True,
                  awaiting = AwaitFetch, caller = Top\<rparr>)]"
    by (simp add: fetchBooks_def setMessage_def setTimeout_def Let_def)
  from a b d e show ?thesis by simp
qed

definition refreshing :: app where
  "refreshing = fetchBooks False True False Top init"

definition refresh_frame :: fetch_frame where
  "refresh_frame = \<lparr>silent = False, triggerBannerOnFailure = True,
     allowImmediateFailure = False, bannerKickoffPending = True, awaiting = AwaitFetch,
     caller = Top\<rparr>"

theorem manual_refresh_countdown_witness:
  "map_of (pending refreshing) 0 = Some (FetchBooks refresh_frame) \<and>
   \<not> allowImmediateFailure refresh_frame \<and> caller refresh_frame = Top \<and>
   triggerBannerOnFailure refresh_frame \<and> \<not> bannerVisible refreshing \<and>
   fetch_failed refresh_frame (Rejected ''Failed to fetch'') \<and>
   map_option (\<lambda>s. (bannerVisible s, bannerPhase s, bannerCountdown s))
     (settle 0 (Rejected ''Failed to fetch'') refreshing) = Some (True, Countdown, Some 25)"
proof -
  have p: "map_of (pending refreshing) 0 = Some (FetchBooks refresh_frame)"
    by (simp add: refreshing_def refresh_frame_def model_defs)
  have f: "\<not> allowImmediateFailure refresh_frame" "caller refresh_frame = Top"
    "triggerBannerOnFailure refresh_frame \<and> \<not> bannerVisible refreshing \<and>
     fetch_failed refresh_frame (Rejected ''Failed to fetch'')"
    by (simp_all add: refreshing_def refresh_frame_def fetch_failed_def model_defs)
  obtain s' where s': "settle 0 (Rejected ''Failed to fetch'') refreshing = Some s'"
    using p by (simp add: settle_def fetchBooks_resume_def refresh_frame_def)
  from manual_refresh_countdown[OF p f(1,2) s'] f(3)
  have "bannerVisible s' \<and> bannerPhase s' = Countdown \<and> bannerCountdown s' = Some 25"
    by blast
  with p f s' show ?thesis by simp
qed

section \<open>The immediate failure shortcut\<close>

text \<open>
  Claim C4 as stated fails: the first load is made with immediate-failure detection
  enabled, and when its request is answered with an error status (here 503) the banner
  starts the countdown.
\<close>

theorem http_error_starts_countdown:
  "map_option (\<lambda>s. (bannerVisible s, bannerPhase s, bannerCountdown s))
     (run init [Mount, Settle 0 (Response 503)]) = Some (True, Countdown, Some 25)"
  by (simp add: model_defs)

text \<open>
  Claim C4, amended.  When the first load is started with the banner at rest and its fetch
  is rejected without a response before the kickoff delay of 1200 ms has passed, the
  banner goes from idle straight to the failed phase, showing the error's message and no
  countdown; the one timer then registered hides it 3000 ms after the failure.  When the
  fetch is instead answered with an error status before the kickoff delay has passed, or
  nothing has settled when the kickoff delay has passed, the banner enters the countdown
  phase, starting at 25.
\<close>

theorem immediate_failure_shortcut:
  assumes "quiet s" and "d < 1200"
  shows "(\<exists>s1 s2 s3.
           run s [Mount, Wait d] = Some s1 \<and> \<not> bannerVisible s1 \<and> bannerPhase s1 = Idle \<and>
           run s [Mount, Wait d, Settle (nextFetch s) (Rejected msg)] = Some s2 \<and>
           bannerVisible s2 \<and> bannerPhase s2 = Failed \<and> bannerCountdown s2 = None \<and>
           bannerMessage s2 = msg \<and> clock s2 = clock s + d \<and>
           timers s2 = [(Suc (nextHandle s),
                         \<lparr>due = clock s + d + 3000, period = None, callback = FinalHide\<rparr>)] \<and>
           run s [Mount, Wait d, Settle (nextFetch s) (Rejected msg), Tick] = Some s3 \<and>
           \<not> bannerVisible s3 \<and> bannerPhase s3 = Idle \<and> bannerCountdown s3 = None \<and>
           timers s3 = [] \<and> clock s3 = clock s + d + 3000) \<and>
         (\<not> ok status \<longrightarrow>
            (\<exists>s4. run s [Mount, Wait d, Settle (nextFetch s) (Response status)] = Some s4 \<and>
               bannerVisible s4 \<and> bannerPhase s4 = Countdown \<and> bannerCountdown s4 = Some 25 \<and>
               clock s4 = clock s + d)) \<and>
         (\<exists>s5. run s [Mount, Tick] = Some s5 \<and>
            bannerVisible s5 \<and> bannerPhase s5 = Countdown \<and> bannerCountdown s5 = Some 25 \<and>
            clock s5 = clock s + 1200)"
proof -
  from assms(1) have "list_all (\<lambda>p. fst p < nextFetch s) (pending s)"
    by (simp add: quiet_def wf_fresh)
  with assms show ?thesis
    by (simp add: quiet_def model_defs map_of_fresh filter_fresh del: map_of_append)
qed

theorem immediate_failure_shortcut_witness:
  "quiet init \<and> (100::nat) < 1200 \<and>
   map_option (\<lambda>s. (bannerVisible s, bannerPhase s, clock s))
     (run init [Mount, Wait 100, Settle 0 (Rejected ''Failed to fetch'')])
     = Some (True, Failed, 100) \<and>
   map_option (\<lambda>s. (bannerVisible s, bannerPhase s, clock s))
     (run init [Mount, Wait 100, Settle 0 (Rejected ''Failed to fetch''), Tick])
     = Some (False, Idle, 3100) \<and>
   \<not> ok 503 \<and>
   map_option (\<lambda>s. (bannerVisible s, bannerPhase s, bannerCountdown s, clock s))
     (run init [Mount, Wait 100, Settle 0 (Response 503)])
     = Some (True, Countdown, Some 25, 100) \<and>
   map_option (\<lambda>s. (bannerVisible s, bannerPhase s, bannerCountdown s, clock s))
     (run init [Mount, Tick]) = Some (True, Countdown, Some 25, 1200)"
proof -
  have h: "quiet init" "(100::nat) < 1200"
    by (simp_all add: quiet_def wf_init) (simp_all add: init_def)
  have k: "\<not> ok 503" by (simp add: ok_def)
  note T = immediate_failure_shortcut[OF h, of "''Failed to fetch''" 503]
  from T[THEN conjunct1]
  obtain s2 s3 where
    "run init [Mount, Wait 100, Settle (nextFetch init) (Rejected ''Failed to fetch'')] = Some s2"
    "bannerVisible s2" "bannerPhase s2 = Failed" "clock s2 = clock init + 100"
    "run init [Mount, Wait 100, Settle (nextFetch init) (Rejected ''Failed to fetch''), Tick]
       = Some s3"
    "\<not> bannerVisible s3" "bannerPhase s3 = Idle" "clock s3 = clock init + 100 + 3000"
    by blast
  moreover from T[THEN conjunct2, THEN conjunct1] k
  obtain s4 where
    "run init [Mount, Wait 100, Settle (nextFetch init) (Response 503)] = Some s4"
    "bannerVisible s4" "bannerPhase s4 = Countdown" "bannerCountdown s4 = Some 25"
    "clock s4 = clock init + 100"
    by blast
  moreover from T[THEN conjunct2, THEN conjunct2]
  obtain s5 where
    "run init [Mount, Tick] = Some s5"
    "bannerVisible s5" "bannerPhase s5 = Countdown" "bannerCountdown s5 = Some 25"
    "clock s5 = clock init + 1200"
    by blast
  moreover have "nextFetch init = 0" "clock init = 0" by (simp_all add: init_def)
  ultimately show ?thesis using h k by simp
qed

section \<open>Teardown\<close>

text \<open>
  Claim C5 on a run of the component.  The component is unmounted half a second after the
  first load has started.  \<^verbatim>\<open>clearBannerTimers\<close> clears the countdown, grace and final timers
  and leaves out \<^verbatim>\<open>bannerDelayTimer\<close>, which \<^verbatim>\<open>fetchBooks\<close> clears when its request settles:
  the kickoff delay timer is still registered, fires at 1200 ms, shows the banner in its
  countdown phase and registers the countdown interval.
\<close>

theorem kickoff_delay_survives_teardown:
  "map_option (\<lambda>s. (bannerVisible s, bannerPhase s, bannerCountdown s, clock s,
                      map (\<lambda>p. callback (snd p)) (timers s)))
     (run init [Mount, Wait 500, Unmount, Tick])
   = Some (True, Countdown, Some 25, 1200, [CountdownTick])"
  by (simp add: model_defs)

text \<open>
  What unmounting does: it clears the three handles \<^verbatim>\<open>countdownTimer\<close>, \<^verbatim>\<open>graceTimer\<close> and
  \<^verbatim>\<open>finalTimer\<close> and takes the timers they name out of the timer table; the other timers,
  the banner's visibility, phase, countdown and message, and the pending requests are as
  before.
\<close>

theorem teardown_clears_tracked:
  "\<exists>s'. step s Unmount = Some s' \<and>
     countdownTimer s' = None \<and> graceTimer s' = None \<and> finalTimer s' = None \<and>
     timers s' = filter (\<lambda>p. Some (fst p) \<noteq> countdownTimer s \<and> Some (fst p) \<noteq> graceTimer s \<and>
                              Some (fst p) \<noteq> finalTimer s) (timers s) \<and>
     bannerVisible s' = bannerVisible s \<and> bannerPhase s' = bannerPhase s \<and>
     bannerCountdown s' = bannerCountdown s \<and> bannerMessage s' = bannerMessage s \<and>
     bannerDelayTimer s' = bannerDelayTimer s \<and> pending s' = pending s"
  by (auto simp: clearBannerTimers_def clearTimer_def Let_def split: option.splits
      intro!: filter_cong)

theorem teardown_clears_tracked_witness:
  "map_option (\<lambda>s. (countdownTimer s, timers s, bannerVisible s, bannerPhase s))
     (run init [Mount, Tick]) =
     Some (Some 2, [(2, \<lparr>due = 2200, period = Some 1000, callback = CountdownTick\<rparr>)],
           True, Countdown) \<and>
   map_option (\<lambda>s. (countdownTimer s, timers s, bannerVisible s, bannerPhase s))
     (run init [Mount, Tick, Unmount]) = Some (None, [], True, Countdown)"
proof -
  have "\<exists>s. run init [Mount, Tick] = Some s \<and> countdownTimer s = Some 2 \<and>
          graceTimer s = None \<and> finalTimer s = None \<and>
          timers s = [(2, \<lparr>due = 2200, period = Some 1000, callback = CountdownTick\<rparr>)] \<and>
          bannerVisible s \<and> bannerPhase s = Countdown"
    by (simp add: model_defs)
  then obtain s where r: "run init [Mount, Tick] = Some s"
    and e: "countdownTimer s = Some 2" "graceTimer s = None" "finalTimer s = None"
      "timers s = [(2, \<lparr>due = 2200, period = Some 1000, callback = CountdownTick\<rparr>)]"
      "bannerVisible s" "bannerPhase s = Countdown"
    by blast
  from teardown_clears_tracked[of s] obtain s' where
    "step s Unmount = Some s'" "countdownTimer s' = None"
    "timers s' = filter (\<lambda>p. Some (fst p) \<noteq> countdownTimer s \<and> Some (fst p) \<noteq> graceTimer s \<and>
                              Some (fst p) \<noteq> finalTimer s) (timers s)"
    "bannerVisible s' = bannerVisible s" "bannerPhase s' = bannerPhase s"
    by blast
  with e have u: "step s Unmount = Some s'" "countdownTimer s' = None" "timers s' = []"
    "bannerVisible s'" "bannerPhase s' = Countdown"
    by simp_all
  have "run init ([Mount, Tick] @ [Unmount]) = Some s'"
    unfolding run_append r using u(1) by (simp del: step.simps)
  with r e u show ?thesis by (simp del: run.simps step.simps)
qed

section \<open>A countdown shown in the failed phase\<close>

text \<open>
  Claim C6 on a run of the component.  The first load hangs; the banner starts after the
  kickoff delay, counts down and enters grace; a retry issued by a grace tick is still in
  flight when the grace period runs out, so the banner fails and hides.  The first load is
  then answered with status 503, which starts the banner again, counting down from 25.
  When the old retry fails at last, the grace callback that was waiting for it resumes,
  finds its seconds used up and the banner visible, and sets the failed phase, leaving the
  countdown at 25: the banner shows the failure message with a countdown.
\<close>

definition stale_grace_check :: "event list" where
  "stale_grace_check =
     [Mount] @ replicate 26 Tick @ [Wait 500, Settle 1 (Rejected ''Failed to fetch'')] @
     replicate 11 Tick @ [Wait 800, Settle 0 (Response 503), Wait 100,
     Settle 2 (Rejected ''Failed to fetch'')]"

theorem failed_with_countdown:
  "map_option (\<lambda>s. (bannerVisible s, bannerPhase s, bannerCountdown s, bannerMessage s))
     (run init stale_grace_check) = Some (True, Failed, Some 25, ''Unable to load books'')"
  by (simp add: stale_grace_check_def replicate_numeral model_defs)

section \<open>A colour assigned twice\<close>

text \<open>
  Claim C9 on a run of the component.  The first load returns an empty list.  The user
  types a title and submits it, and refreshes the list while the POST is in flight.  The
  refresh is answered first and lists the book the POST has created, with id 5:
  \<^verbatim>\<open>assignColors\<close> gives id 5 the gradient of index 0.  The answer to the POST follows:
  \<^verbatim>\<open>saveBook\<close> appends the book and assigns \<^verbatim>\<open>colorMap.value[data.id]\<close> without looking
  whether the id has a gradient, so that id 5, which has not left the shelf, now has the
  gradient of index 1.
\<close>

definition dune :: item where
  "dune = \<lparr>item_id = 5, item_name = [0x44, 0x75, 0x6E, 0x65]\<rparr>"

definition save_races_refresh :: "event list" where
  "save_races_refresh =
     [Mount, Settle 0 (Response 200), Settle 0 (Json (Items [])),
      Input (item_name dune), Submit, ClickRefresh,
      Settle 2 (Response 200), Settle 2 (Json (Items [dune])), Settle 1 (Response 201)]"

theorem save_recolours_listed_id:
  "map_option (\<lambda>s. (map item_id (books s), colorMap s, loading s))
     (run init save_races_refresh) = Some ([5], [(5, gradientFromIndex 0)], False) \<and>
   map_option (\<lambda>s. (map item_id (books s), colorMap s))
     (run init (save_races_refresh @ [Settle 1 (Json (Single dune))]))
     = Some ([5, 5], [(5, gradientFromIndex 1)]) \<and>
   map hue (gradientFromIndex 0) = [0, 22000, 44000] \<and>
   map hue (gradientFromIndex 1) = [137508, 159508, 181508]"
  by (simp add: save_races_refresh_def dune_def model_defs saveBook_def saveBook_resume_def
      saveBook_success_def truthy_def trim_def is_space_def assignColors_def nextColorIndex_def
      gradientFromIndex_def GOLDEN_ANGLE_def FULL_TURN_def GRADIENT_STEP_def)

section \<open>The banner while no request succeeds\<close>

text \<open>
  The rest of the development follows the banner from its start through every run in which
  timers fire, time passes and requests settle, none of them successfully.  Three
  invariants describe the banner in such a run: counting down, with \<open>k\<close> ticks behind it
  and the countdown interval as the only timer; in grace, with the grace interval as the
  only timer and \<^verbatim>\<open>secondsLeft\<close> at 35 - \<open>k\<close>; and failed since the time \<open>tf\<close>, with the
  final timeout due at \<open>tf\<close> + 3000.  The silent retries in flight return either to nothing
  or to the expiry check of the grace period.
\<close>

definition callers_in :: "after_retry set \<Rightarrow> app \<Rightarrow> bool" where
  "callers_in K s \<longleftrightarrow>
     (\<forall>p \<in> set (pending s). \<forall>f k. snd p = FetchBooks f \<longrightarrow> caller f = Retry k \<longrightarrow> k \<in> K)"

definition countdown_timer :: "nat \<Rightarrow> timer" where
  "countdown_timer d = \<lparr>due = d, period = Some 1000, callback = CountdownTick\<rparr>"

definition grace_timer :: "nat \<Rightarrow> nat \<Rightarrow> timer" where
  "grace_timer cell d = \<lparr>due = d, period = Some 1000, callback = GraceTick cell\<rparr>"

definition final_timer :: "nat \<Rightarrow> timer" where
  "final_timer d = \<lparr>due = d, period = None, callback = FinalHide\<rparr>"

definition cd_inv :: "nat \<Rightarrow> string \<Rightarrow> nat \<Rightarrow> nat \<Rightarrow> app \<Rightarrow> bool" where
  "cd_inv t0 msg k h s \<longleftrightarrow>
     bannerVisible s \<and> bannerPhase s = Countdown \<and> bannerFailureMessage s = msg \<and>
     bannerCountdown s = Some (25 - k) \<and> k < 25 \<and>
     countdownTimer s = Some h \<and> h < nextHandle s \<and>
     timers s = [(h, countdown_timer (t0 + 1000 * (k + 1)))] \<and>
     t0 + 1000 * k \<le> clock s \<and> clock s < t0 + 1000 * (k + 1) \<and>
     graceTimer s = None \<and> finalTimer s = None \<and> bannerDelayTimer s = None \<and>
     wf s \<and> callers_in {Detached} s"

definition gr_inv :: "nat \<Rightarrow> string \<Rightarrow> nat \<Rightarrow> nat \<Rightarrow> app \<Rightarrow> bool" where
  "gr_inv t0 msg k h s \<longleftrightarrow>
     bannerVisible s \<and> bannerPhase s = Grace \<and> bannerFailureMessage s = msg \<and>
     bannerCountdown s = None \<and> 25 \<le> k \<and> k \<le> 35 \<and> secondsLeft s h = 35 - int k \<and>
     graceTimer s = Some h \<and> h < nextHandle s \<and>
     timers s = [(h, grace_timer h (t0 + 1000 * (k + 1)))] \<and>
     t0 + 1000 * k \<le> clock s \<and> clock s < t0 + 1000 * (k + 1) \<and>
     countdownTimer s = None \<and> finalTimer s = None \<and> bannerDelayTimer s = None \<and>
     wf s \<and> callers_in {Detached, GraceCheck h} s \<and>
     (k = 35 \<longrightarrow> bannerFetchInFlight s \<and> callers_in {GraceCheck h} s)"

definition fl_inv :: "nat \<Rightarrow> string \<Rightarrow> app \<Rightarrow> bool" where
  "fl_inv tf msg s \<longleftrightarrow>
     bannerVisible s \<and> bannerPhase s = Failed \<and> bannerFailureMessage s = msg \<and>
     bannerMessage s = msg \<and> bannerCountdown s = None \<and>
     tf \<le> clock s \<and> clock s < tf + 3000 \<and>
     countdownTimer s = None \<and> graceTimer s = None \<and> bannerDelayTimer s = None \<and> wf s \<and>
     (\<exists>h. finalTimer s = Some h \<and> h < nextHandle s \<and>
        (timers s = [(h, final_timer (tf + 3000))] \<or>
         (\<exists>h1 d. h1 < h \<and> tf + 3000 \<le> d \<and> \<not> bannerFetchInFlight s \<and>
            timers s = [(h1, final_timer (tf + 3000)), (h, final_timer d)])))"

lemmas timer_defs = countdown_timer_def grace_timer_def final_timer_def

lemma wf_upd [simp]:
  "wf (s\<lparr>books := x0\<rparr>) = wf s"
  "wf (s\<lparr>colorMap := x1\<rparr>) = wf s"
  "wf (s\<lparr>formName := x2\<rparr>) = wf s"
  "wf (s\<lparr>editingId := x3\<rparr>) = wf s"
  "wf (s\<lparr>statusMessage := x4\<rparr>) = wf s"
  "wf (s\<lparr>loading := x5\<rparr>) = wf s"
  "wf (s\<lparr>bannerVisible := x6\<rparr>) = wf s"
  "wf (s\<lparr>bannerMessage := x7\<rparr>) = wf s"
  "wf (s\<lparr>bannerCountdown := x8\<rparr>) = wf s"
  "wf (s\<lparr>bannerPhase := x9\<rparr>) = wf s"
  "wf (s\<lparr>bannerFailureMessage := x10\<rparr>) = wf s"
  "wf (s\<lparr>bannerDelayTimer := x11\<rparr>) = wf s"
  "wf (s\<lparr>countdownTimer := x12\<rparr>) = wf s"
  "wf (s\<lparr>graceTimer := x13\<rparr>) = wf s"
  "wf (s\<lparr>finalTimer := x14\<rparr>) = wf s"
  "wf (s\<lparr>secondsLeft := x15\<rparr>) = wf s"
  "wf (s\<lparr>clock := x16\<rparr>) = wf s"
  "wf (s\<lparr>timers := x17\<rparr>) = wf s"
  "wf (s\<lparr>nextHandle := x18\<rparr>) = wf s"
  by (simp_all add: wf_def)

lemma callers_in_upd [simp]:
  "callers_in K (s\<lparr>books := x0\<rparr>) = callers_in K s"
  "callers_in K (s\<lparr>colorMap := x1\<rparr>) = callers_in K s"
  "callers_in K (s\<lparr>formName := x2\<rparr>) = callers_in K s"
  "callers_in K (s\<lparr>editingId := x3\<rparr>) = callers_in K s"
  "callers_in K (s\<lparr>statusMessage := x4\<rparr>) = callers_in K s"
  "callers_in K (s\<lparr>loading := x5\<rparr>) = callers_in K s"
  "callers_in K (s\<lparr>bannerVisible := x6\<rparr>) = callers_in K s"
  "callers_in K (s\<lparr>bannerMessage := x7\<rparr>) = callers_in K s"
  "callers_in K (s\<lparr>bannerCountdown := x8\<rparr>) = callers_in K s"
  "callers_in K (s\<lparr>bannerPhase := x9\<rparr>) = callers_in K s"
  "callers_in K (s\<lparr>bannerFailureMessage := x10\<rparr>) = callers_in K s"
  "callers_in K (s\<lparr>bannerDelayTimer := x11\<rparr>) = callers_in K s"
  "callers_in K (s\<lparr>countdownTimer := x12\<rparr>) = callers_in K s"
  "callers_in K (s\<lparr>graceTimer := x13\<rparr>) = callers_in K s"
  "callers_in K (s\<lparr>finalTimer := x14\<rparr>) = callers_in K s"
  "callers_in K (s\<lparr>secondsLeft := x15\<rparr>) = callers_in K s"
  "callers_in K (s\<lparr>clock := x16\<rparr>) = callers_in K s"
  "callers_in K (s\<lparr>timers := x17\<rparr>) = callers_in K s"
  "callers_in K (s\<lparr>nextHandle := x18\<rparr>) = callers_in K s"
  "callers_in K (s\<lparr>bannerFetchInFlight := x19\<rparr>) = callers_in K s"
  "callers_in K (s\<lparr>nextFetch := x20\<rparr>) = callers_in K s"
  by (simp_all add: callers_in_def)

lemma tryFetch_fields:
  "bannerVisible (tryFetchDuringBanner Detached s) = bannerVisible s"
  "bannerPhase (tryFetchDuringBanner Detached s) = bannerPhase s"
  "bannerFailureMessage (tryFetchDuringBanner Detached s) = bannerFailureMessage s"
  "bannerMessage (tryFetchDuringBanner Detached s) = bannerMessage s"
  "bannerCountdown (tryFetchDuringBanner Detached s) = bannerCountdown s"
  "countdownTimer (tryFetchDuringBanner Detached s) = countdownTimer s"
  "graceTimer (tryFetchDuringBanner Detached s) = graceTimer s"
  "finalTimer (tryFetchDuringBanner Detached s) = finalTimer s"
  "bannerDelayTimer (tryFetchDuringBanner Detached s) = bannerDelayTimer s"
  "timers (tryFetchDuringBanner Detached s) = timers s"
  "nextHandle (tryFetchDuringBanner Detached s) = nextHandle s"
  "clock (tryFetchDuringBanner Detached s) = clock s"
  "secondsLeft (tryFetchDuringBanner Detached s) = secondsLeft s"
  by (simp_all add: tryFetchDuringBanner_def fetchBooks_def Let_def)

lemma callers_in_tryFetch:
  "callers_in K s \<Longrightarrow> k \<in> K \<Longrightarrow> \<not> bannerFetchInFlight s \<or> k = Detached \<Longrightarrow>
   callers_in K (tryFetchDuringBanner k s)"
  by (auto simp: callers_in_def tryFetchDuringBanner_def fetchBooks_def Let_def)

lemma cd_tick:
  assumes "cd_inv t0 msg k h s" and "k < 24"
  shows "\<exists>s'. step s Tick = Some s' \<and> cd_inv t0 msg (Suc k) h s'"
proof -
  let ?s1 = "s\<lparr>clock := t0 + 1000 * (k + 1),
               timers := [(h, countdown_timer (t0 + 1000 * (k + 1) + 1000))],
               bannerCountdown := Some (25 - k - 1)\<rparr>"
  from assms have st: "step s Tick = Some (tryFetchDuringBanner Detached ?s1)"
    by (simp add: cd_inv_def fire_def rearm_def timer_defs)
  from assms have "wf ?s1" "callers_in {Detached} ?s1" by (simp_all add: cd_inv_def)
  then have "wf (tryFetchDuringBanner Detached ?s1)"
    "callers_in {Detached} (tryFetchDuringBanner Detached ?s1)"
    by (simp_all add: wf_tryFetchDuringBanner callers_in_tryFetch)
  with assms have "cd_inv t0 msg (Suc k) h (tryFetchDuringBanner Detached ?s1)"
    by (simp add: cd_inv_def tryFetch_fields timer_defs)
  with st show ?thesis by simp
qed

lemma cd_expire:
  assumes "cd_inv t0 msg 24 h s"
  shows "\<exists>s'. step s Tick = Some s' \<and> gr_inv t0 msg 25 (nextHandle s) s'"
  using assms
  by (simp add: cd_inv_def gr_inv_def fire_def rearm_def timer_defs countdownExpiry_def
      startGracePeriod_def clearTimer_def setInterval_def Let_def wf_def callers_in_def)

lemma gr_tick_suppressed:
  assumes "gr_inv t0 msg k h s" and "k < 34" and "bannerFetchInFlight s"
  shows "\<exists>s'. step s Tick = Some s' \<and> gr_inv t0 msg (Suc k) h s'"
  using assms
  by (simp add: gr_inv_def fire_def rearm_def timer_defs tryFetchDuringBanner_def
      graceExpiry_def wf_def callers_in_def)


fun never_succeeds :: "event \<Rightarrow> bool" where
  "never_succeeds Tick = True"
| "never_succeeds (Wait d) = True"
| "never_succeeds (Settle fid out) = (case out of Json b \<Rightarrow> False | _ \<Rightarrow> True)"
| "never_succeeds e = False"

definition monitor :: "app \<Rightarrow> app" where
  "monitor s = s\<lparr>books := [], colorMap := [], formName := [], editingId := None,
                 statusMessage := [], loading := False, pending := []\<rparr>"

lemma monitor_fields:
  assumes "monitor a = monitor b"
  shows "bannerVisible a = bannerVisible b" "bannerPhase a = bannerPhase b"
    "bannerFailureMessage a = bannerFailureMessage b" "bannerMessage a = bannerMessage b"
    "bannerCountdown a = bannerCountdown b" "countdownTimer a = countdownTimer b"
    "graceTimer a = graceTimer b" "finalTimer a = finalTimer b"
    "bannerDelayTimer a = bannerDelayTimer b" "timers a = timers b"
    "nextHandle a = nextHandle b" "clock a = clock b" "secondsLeft a = secondsLeft b"
    "bannerFetchInFlight a = bannerFetchInFlight b" "nextFetch a = nextFetch b"
proof -
  have "\<And>f. f (monitor a) = f (monitor b)" using assms by simp
  note m = this
  from m[of bannerVisible] show "bannerVisible a = bannerVisible b" by (simp add: monitor_def)
  from m[of bannerPhase] show "bannerPhase a = bannerPhase b" by (simp add: monitor_def)
  from m[of bannerFailureMessage] show "bannerFailureMessage a = bannerFailureMessage b"
    by (simp add: monitor_def)
  from m[of bannerMessage] show "bannerMessage a = bannerMessage b" by (simp add: monitor_def)
  from m[of bannerCountdown] show "bannerCountdown a = bannerCountdown b"
    by (simp add: monitor_def)
  from m[of countdownTimer] show "countdownTimer a = countdownTimer b" by (simp add: monitor_def)
  from m[of graceTimer] show "graceTimer a = graceTimer b" by (simp add: monitor_def)
  from m[of finalTimer] show "finalTimer a = finalTimer b" by (simp add: monitor_def)
  from m[of bannerDelayTimer] show "bannerDelayTimer a = bannerDelayTimer b"
    by (simp add: monitor_def)
  from m[of timers] show "timers a = timers b" by (simp add: monitor_def)
  from m[of nextHandle] show "nextHandle a = nextHandle b" by (simp add: monitor_def)
  from m[of clock] show "clock a = clock b" by (simp add: monitor_def)
  from m[of secondsLeft] show "secondsLeft a = secondsLeft b" by (simp add: monitor_def)
  from m[of bannerFetchInFlight] show "bannerFetchInFlight a = bannerFetchInFlight b"
    by (simp add: monitor_def)
  from m[of nextFetch] show "nextFetch a = nextFetch b" by (simp add: monitor_def)
qed

lemma cd_inv_cong:
  assumes "cd_inv t0 msg k h s" "monitor s' = monitor s" "wf s'" "callers_in {Detached} s'"
  shows "cd_inv t0 msg k h s'"
proof -
  note f = monitor_fields[OF assms(2)]
  from assms(1,3,4) show ?thesis by (simp add: cd_inv_def f)
qed

lemma gr_inv_cong:
  assumes "gr_inv t0 msg k h s" "monitor s' = monitor s" "wf s'"
    "callers_in {Detached, GraceCheck h} s'" "k = 35 \<longrightarrow> callers_in {GraceCheck h} s'"
  shows "gr_inv t0 msg k h s'"
proof -
  note f = monitor_fields[OF assms(2)]
  from assms(1,3,4,5) show ?thesis by (simp add: gr_inv_def f)
qed

lemma fl_inv_cong:
  assumes "fl_inv tf msg s" "monitor s' = monitor s" "wf s'"
  shows "fl_inv tf msg s'"
proof -
  note f = monitor_fields[OF assms(2)]
  from assms(1,3) show ?thesis by (simp add: fl_inv_def f)
qed

text \<open>A request that is not a silent retry settles without success while the banner is up.\<close>

lemma catch_top_visible:
  assumes "caller f = Top" "bannerVisible s" "bannerDelayTimer s = None"
  shows "monitor (fetchBooks_catch f hasResponse msg s) = monitor s"
    and "pending (fetchBooks_catch f hasResponse msg s) = pending s"
  using assms
  by (simp_all add: fetchBooks_catch_def fetchBooks_finally_def setMessage_def monitor_def Let_def)

lemma monitor_pending [simp]: "monitor (s\<lparr>pending := p\<rparr>) = monitor s"
  by (simp add: monitor_def)

lemma monitor_setMessage [simp]: "monitor (setMessage m s) = monitor s"
  by (simp add: monitor_def setMessage_def)

lemma monitor_removeBook_success [simp]: "monitor (removeBook_success i s) = monitor s"
  by (simp add: monitor_def removeBook_success_def setMessage_def resetForm_def Let_def)

lemma pending_setMessage [simp]: "pending (setMessage m s) = pending s"
  by (simp add: setMessage_def)

lemma pending_removeBook_success [simp]: "pending (removeBook_success i s) = pending s"
  by (simp add: removeBook_success_def setMessage_def resetForm_def Let_def)

lemma settle_other:
  assumes "map_of (pending s) fid = Some fr" and "\<not> retry_frame fr" and "frame_wf fr"
      and "bannerVisible s" and "bannerDelayTimer s = None"
      and "never_succeeds (Settle fid out)" and "settle fid out s = Some s'"
  shows "monitor s' = monitor s \<and>
         (pending s' = filter (\<lambda>p. fst p \<noteq> fid) (pending s) \<or>
          (\<exists>fr'. \<not> retry_frame fr' \<and> frame_wf fr' \<and>
             pending s' = filter (\<lambda>p. fst p \<noteq> fid) (pending s) @ [(fid, fr')]))"
proof (cases fr)
  case (FetchBooks f)
  let ?s0 = "s\<lparr>pending := filter (\<lambda>p. fst p \<noteq> fid) (pending s)\<rparr>"
  from FetchBooks assms(2,3) have top: "caller f = Top" "\<not> silent f" by simp_all
  from assms(4,5) have v: "bannerVisible ?s0" "bannerDelayTimer ?s0 = None" by simp_all
  note c = catch_top_visible[OF top(1) v]
  from assms(1,7) FetchBooks have r: "fetchBooks_resume fid f out ?s0 = Some s'"
    by (simp add: settle_def)
  show ?thesis
  proof (cases out)
    case (Rejected m)
    with r show ?thesis by (cases "awaiting f") (auto simp: fetchBooks_resume_def c)
  next
    case (Response st)
    with r top show ?thesis
      by (cases "awaiting f"; cases "ok st") (auto simp: fetchBooks_resume_def c)
  next
    case (Json b)
    with assms(6) show ?thesis by simp
  next
    case (JsonRejected m)
    with r show ?thesis by (cases "awaiting f") (auto simp: fetchBooks_resume_def c)
  qed
next
  case (SaveBook e st)
  let ?s0 = "s\<lparr>pending := filter (\<lambda>p. fst p \<noteq> fid) (pending s)\<rparr>"
  from assms(1,7) SaveBook have r: "saveBook_resume fid e st out ?s0 = Some s'"
    by (simp add: settle_def)
  show ?thesis
  proof (cases out)
    case (Rejected m)
    with r show ?thesis by (cases st) (auto simp: saveBook_resume_def)
  next
    case (Response status)
    with r show ?thesis
      by (cases st; cases "ok status") (auto simp: saveBook_resume_def)
  next
    case (Json b)
    with assms(6) show ?thesis by simp
  next
    case (JsonRejected m)
    with r show ?thesis by (cases st) (auto simp: saveBook_resume_def)
  qed
next
  case (RemoveBook i)
  let ?s0 = "s\<lparr>pending := filter (\<lambda>p. fst p \<noteq> fid) (pending s)\<rparr>"
  from assms(1,7) RemoveBook have r: "removeBook_resume i out ?s0 = Some s'"
    by (simp add: settle_def)
  show ?thesis
  proof (cases out)
    case (Rejected m)
    with r show ?thesis by (auto simp: removeBook_resume_def)
  next
    case (Response status)
    with r show ?thesis
      by (cases "\<not> ok status \<and> status \<noteq> 204") (auto simp: removeBook_resume_def)
  next
    case (Json b)
    with assms(6) show ?thesis by simp
  next
    case (JsonRejected m)
    with r show ?thesis by (auto simp: removeBook_resume_def)
  qed
qed


lemma callers_in_filter:
  "callers_in K s \<Longrightarrow> pending s' = filter P (pending s) \<Longrightarrow> callers_in K s'"
  by (auto simp: callers_in_def)

lemma callers_in_readd:
  "callers_in K s \<Longrightarrow> pending s' = filter P (pending s) @ [(fid, fr')] \<Longrightarrow>
   \<not> retry_frame fr' \<Longrightarrow> frame_wf fr' \<Longrightarrow> callers_in K s'"
  by (cases fr') (auto simp: callers_in_def)

lemma settle_other_callers:
  assumes "map_of (pending s) fid = Some fr" and "\<not> retry_frame fr" and "frame_wf fr"
      and "bannerVisible s" and "bannerDelayTimer s = None"
      and "never_succeeds (Settle fid out)" and "settle fid out s = Some s'"
      and "callers_in K s"
  shows "callers_in K s'"
  using settle_other[OF assms(1-7)] assms(8)
  by (auto intro: callers_in_filter callers_in_readd)

lemma catch_retry:
  assumes "silent f" "\<not> triggerBannerOnFailure f" "caller f = Retry k"
    "bannerDelayTimer s = None"
  shows "fetchBooks_catch f hasResponse msg s
           = resume_after_retry k (s\<lparr>bannerFetchInFlight := False\<rparr>)"
  using assms by (simp add: fetchBooks_catch_def fetchBooks_finally_def Let_def)

lemma settle_retry:
  assumes "map_of (pending s) fid = Some (FetchBooks f)" and "silent f"
      and "frame_wf (FetchBooks f)" and "bannerDelayTimer s = None"
      and "never_succeeds (Settle fid out)" and "settle fid out s = Some s'"
  shows "(\<exists>k. caller f = Retry k \<and>
            s' = resume_after_retry k
                   (s\<lparr>pending := filter (\<lambda>p. fst p \<noteq> fid) (pending s),
                      bannerFetchInFlight := False\<rparr>)) \<or>
         s' = s\<lparr>pending := filter (\<lambda>p. fst p \<noteq> fid) (pending s) @
                              [(fid, FetchBooks (f\<lparr>awaiting := AwaitJson\<rparr>))]\<rparr>"
proof -
  let ?s0 = "s\<lparr>pending := filter (\<lambda>p. fst p \<noteq> fid) (pending s)\<rparr>"
  from assms(2,3) obtain k where k: "caller f = Retry k" and nt: "\<not> triggerBannerOnFailure f"
    by (cases "caller f") auto
  from assms(4) have d: "bannerDelayTimer ?s0 = None" by simp
  note c = catch_retry[OF assms(2) nt k d]
  from assms(1,6) have r: "fetchBooks_resume fid f out ?s0 = Some s'"
    by (simp add: settle_def)
  show ?thesis
  proof (cases out)
    case (Rejected m)
    with r k show ?thesis by (cases "awaiting f") (auto simp: fetchBooks_resume_def c)
  next
    case (Response st)
    with r k show ?thesis
      by (cases "awaiting f"; cases "ok st") (auto simp: fetchBooks_resume_def c)
  next
    case (Json b)
    with assms(5) show ?thesis by simp
  next
    case (JsonRejected m)
    with r k show ?thesis by (cases "awaiting f") (auto simp: fetchBooks_resume_def c)
  qed
qed

lemma wf_retry_frame:
  assumes "wf s" "map_of (pending s) fid = Some fr"
  shows "frame_wf fr" "retry_frame fr \<Longrightarrow> bannerFetchInFlight s"
proof -
  from assms show "frame_wf fr" unfolding wf_def by (auto dest: wfp_member)
  assume "retry_frame fr"
  with assms show "bannerFetchInFlight s"
    unfolding wf_def using wfp_delete_retry by blast
qed

lemma callers_in_member:
  "callers_in K s \<Longrightarrow> map_of (pending s) fid = Some (FetchBooks f) \<Longrightarrow> caller f = Retry k \<Longrightarrow>
   k \<in> K"
  by (auto simp: callers_in_def dest!: map_of_SomeD)

lemma no_retry_callers: "wf s \<Longrightarrow> \<not> bannerFetchInFlight s \<Longrightarrow> callers_in K s"
proof -
  assume w: "wf s" and n: "\<not> bannerFetchInFlight s"
  then have "filter (\<lambda>p. retry_frame (snd p)) (pending s) = []"
    by (simp add: wf_def wfp_def)
  then have a: "\<forall>p \<in> set (pending s). \<not> retry_frame (snd p)"
    by (simp add: filter_empty_conv)
  from w have b: "\<forall>p \<in> set (pending s). frame_wf (snd p)" by (simp add: wf_def wfp_def)
  show ?thesis
    unfolding callers_in_def
  proof (intro ballI allI impI)
    fix p f k assume "p \<in> set (pending s)" "snd p = FetchBooks f" "caller f = Retry k"
    with a b show "k \<in> K" by force
  qed
qed

text \<open>Settlements in the countdown phase.\<close>

lemma cd_settle:
  assumes i: "cd_inv t0 msg k h s" and n: "never_succeeds (Settle fid out)"
      and st: "settle fid out s = Some s'"
  shows "cd_inv t0 msg k h s'"
proof -
  from st obtain fr where m: "map_of (pending s) fid = Some fr"
    by (auto simp: settle_def split: option.splits)
  from i have w: "wf s" and v: "bannerVisible s" and d: "bannerDelayTimer s = None"
    and c: "callers_in {Detached} s"
    by (simp_all add: cd_inv_def)
  from w st have w': "wf s'" by (rule wf_settle)
  note fw = wf_retry_frame[OF w m]
  show ?thesis
  proof (cases "retry_frame fr")
    case False
    from settle_other[OF m False fw(1) v d n st] settle_other_callers[OF m False fw(1) v d n st c]
    show ?thesis using i w' by (auto intro: cd_inv_cong)
  next
    case True
    then obtain f where f: "fr = FetchBooks f" "silent f" by (cases fr) auto
    from settle_retry[OF m[unfolded f(1)] f(2) fw(1)[unfolded f(1)] d n st]
    show ?thesis
    proof
      assume "\<exists>k. caller f = Retry k \<and>
            s' = resume_after_retry k
                   (s\<lparr>pending := filter (\<lambda>p. fst p \<noteq> fid) (pending s),
                      bannerFetchInFlight := False\<rparr>)"
      then obtain k' where k': "caller f = Retry k'"
        and s': "s' = resume_after_retry k'
                   (s\<lparr>pending := filter (\<lambda>p. fst p \<noteq> fid) (pending s),
                      bannerFetchInFlight := False\<rparr>)" by blast
      from callers_in_member[OF c m[unfolded f(1)] k'] have "k' = Detached" by simp
      with s' have s'': "s' = s\<lparr>pending := filter (\<lambda>p. fst p \<noteq> fid) (pending s),
                      bannerFetchInFlight := False\<rparr>" by simp
      from c have "callers_in {Detached} s'" unfolding s'' by (auto simp: callers_in_def)
      with i w' show ?thesis unfolding s'' by (simp add: cd_inv_def)
    next
      assume s': "s' = s\<lparr>pending := filter (\<lambda>p. fst p \<noteq> fid) (pending s) @
                              [(fid, FetchBooks (f\<lparr>awaiting := AwaitJson\<rparr>))]\<rparr>"
      from c m f have "callers_in {Detached} s'" unfolding s'
        by (auto simp: callers_in_def dest!: map_of_SomeD)
      with i w' show ?thesis unfolding s' by (simp add: cd_inv_def)
    qed
  qed
qed


text \<open>Settlements in the grace phase.\<close>

lemma gr_settle:
  assumes i: "gr_inv t0 msg k h s" and n: "never_succeeds (Settle fid out)"
      and st: "settle fid out s = Some s'"
  shows "gr_inv t0 msg k h s' \<or>
         (k = 35 \<and> fl_inv (clock s) msg s' \<and> clock s' = clock s)"
proof -
  from st obtain fr where m: "map_of (pending s) fid = Some fr"
    by (auto simp: settle_def split: option.splits)
  from i have w: "wf s" and v: "bannerVisible s" and d: "bannerDelayTimer s = None"
    and c: "callers_in {Detached, GraceCheck h} s"
    and c35: "k = 35 \<longrightarrow> callers_in {GraceCheck h} s"
    by (simp_all add: gr_inv_def)
  from w st have w': "wf s'" by (rule wf_settle)
  note fw = wf_retry_frame[OF w m]
  show ?thesis
  proof (cases "retry_frame fr")
    case False
    from settle_other[OF m False fw(1) v d n st]
      settle_other_callers[OF m False fw(1) v d n st c]
    have "monitor s' = monitor s" "callers_in {Detached, GraceCheck h} s'" by simp_all
    moreover have "k = 35 \<longrightarrow> callers_in {GraceCheck h} s'"
      using settle_other_callers[OF m False fw(1) v d n st] c35 by blast
    ultimately show ?thesis using i w' by (auto intro: gr_inv_cong)
  next
    case True
    then obtain f where f: "fr = FetchBooks f" "silent f" by (cases fr) auto
    from settle_retry[OF m[unfolded f(1)] f(2) fw(1)[unfolded f(1)] d n st]
    show ?thesis
    proof
      assume "\<exists>k. caller f = Retry k \<and>
            s' = resume_after_retry k
                   (s\<lparr>pending := filter (\<lambda>p. fst p \<noteq> fid) (pending s),
                      bannerFetchInFlight := False\<rparr>)"
      then obtain k' where k': "caller f = Retry k'"
        and s': "s' = resume_after_retry k'
                   (s\<lparr>pending := filter (\<lambda>p. fst p \<noteq> fid) (pending s),
                      bannerFetchInFlight := False\<rparr>)" by blast
      let ?s1 = "s\<lparr>pending := filter (\<lambda>p. fst p \<noteq> fid) (pending s),
                      bannerFetchInFlight := False\<rparr>"
      from w' s' have w1: "wf ?s1" by (cases k') simp_all
      from c have c1: "callers_in K ?s1" for K
        using w1 by (intro no_retry_callers) simp_all
      from callers_in_member[OF c m[unfolded f(1)] k']
      have "k' = Detached \<or> k' = GraceCheck h" by simp
      then show ?thesis
      proof
        assume kd: "k' = Detached"
        with c35 callers_in_member[OF _ m[unfolded f(1)] k'] have "k \<noteq> 35" by auto
        with i w1 c1 kd s' show ?thesis by (simp add: gr_inv_def)
      next
        assume kg: "k' = GraceCheck h"
        show ?thesis
        proof (cases "k = 35")
          case False
          with i have "\<not> secondsLeft s h \<le> 0" by (simp add: gr_inv_def)
          with kg s' have "s' = ?s1" by (simp add: graceExpiry_def)
          with i w1 c1 False show ?thesis by (simp add: gr_inv_def)
        next
          case True
          with i kg s' w' have "fl_inv (clock s) msg s' \<and> clock s' = clock s"
            by (simp add: gr_inv_def fl_inv_def graceExpiry_def setTimeout_def clearTimer_def
                timer_defs Let_def)
          with True show ?thesis by simp
        qed
      qed
    next
      assume s': "s' = s\<lparr>pending := filter (\<lambda>p. fst p \<noteq> fid) (pending s) @
                              [(fid, FetchBooks (f\<lparr>awaiting := AwaitJson\<rparr>))]\<rparr>"
      from c m f have "callers_in {Detached, GraceCheck h} s'" unfolding s'
        by (auto simp: callers_in_def dest!: map_of_SomeD)
      moreover from c35 m f have "k = 35 \<longrightarrow> callers_in {GraceCheck h} s'" unfolding s'
        by (auto simp: callers_in_def dest!: map_of_SomeD)
      ultimately show ?thesis using i w' unfolding s' by (simp add: gr_inv_def)
    qed
  qed
qed


text \<open>Settlements in the failed phase.\<close>

lemma fl_settle:
  assumes i: "fl_inv tf msg s" and n: "never_succeeds (Settle fid out)"
      and st: "settle fid out s = Some s'"
  shows "fl_inv tf msg s' \<and> clock s' = clock s"
proof -
  from st obtain fr where m: "map_of (pending s) fid = Some fr"
    by (auto simp: settle_def split: option.splits)
  from i have w: "wf s" and v: "bannerVisible s" and d: "bannerDelayTimer s = None"
    by (simp_all add: fl_inv_def)
  from w st have w': "wf s'" by (rule wf_settle)
  note fw = wf_retry_frame[OF w m]
  show ?thesis
  proof (cases "retry_frame fr")
    case False
    from settle_other[OF m False fw(1) v d n st]
    have ms: "monitor s' = monitor s" by simp
    with i w' show ?thesis by (auto intro: fl_inv_cong simp: monitor_fields[OF ms])
  next
    case True
    then obtain f where f: "fr = FetchBooks f" "silent f" by (cases fr) auto
    from fw(2)[OF True] have fl: "bannerFetchInFlight s" .
    from settle_retry[OF m[unfolded f(1)] f(2) fw(1)[unfolded f(1)] d n st]
    show ?thesis
    proof
      assume "\<exists>k. caller f = Retry k \<and>
            s' = resume_after_retry k
                   (s\<lparr>pending := filter (\<lambda>p. fst p \<noteq> fid) (pending s),
                      bannerFetchInFlight := False\<rparr>)"
      then obtain k' where k': "caller f = Retry k'"
        and s': "s' = resume_after_retry k'
                   (s\<lparr>pending := filter (\<lambda>p. fst p \<noteq> fid) (pending s),
                      bannerFetchInFlight := False\<rparr>)" by blast
      show ?thesis
      proof (cases k')
        case Detached
        with i w' s' show ?thesis by (auto simp: fl_inv_def)
      next
        case (GraceCheck cell)
        with i w' s' fl show ?thesis
          by (auto simp: fl_inv_def graceExpiry_def setTimeout_def clearTimer_def timer_defs
              Let_def)
      qed
    next
      assume s': "s' = s\<lparr>pending := filter (\<lambda>p. fst p \<noteq> fid) (pending s) @
                              [(fid, FetchBooks (f\<lparr>awaiting := AwaitJson\<rparr>))]\<rparr>"
      with i w' show ?thesis by (auto simp: fl_inv_def)
    qed
  qed
qed

text \<open>Time passing between two timers.\<close>

lemma cd_wait:
  "cd_inv t0 msg k h s \<Longrightarrow> step s (Wait d) = Some s' \<Longrightarrow> cd_inv t0 msg k h s'"
  by (auto simp: cd_inv_def timer_defs split: if_splits)

lemma gr_wait:
  "gr_inv t0 msg k h s \<Longrightarrow> step s (Wait d) = Some s' \<Longrightarrow> gr_inv t0 msg k h s'"
  by (auto simp: gr_inv_def timer_defs split: if_splits)

lemma fl_wait:
  "fl_inv tf msg s \<Longrightarrow> step s (Wait d) = Some s' \<Longrightarrow> fl_inv tf msg s'"
  by (auto simp: fl_inv_def timer_defs split: if_splits)

text \<open>The ticks of the grace phase and the final timer.\<close>

lemma gr_tick:
  assumes "gr_inv t0 msg k h s" and "k < 34"
  shows "\<exists>s'. step s Tick = Some s' \<and> gr_inv t0 msg (Suc k) h s'"
proof (cases "bannerFetchInFlight s")
  case True
  with assms show ?thesis by (intro gr_tick_suppressed)
next
  case False
  with assms have "callers_in {Detached, GraceCheck h} s" by (simp add: gr_inv_def)
  with assms False show ?thesis
    by (simp add: gr_inv_def fire_def rearm_def timer_defs tryFetchDuringBanner_def
        fetchBooks_def Let_def wf_def wfp_append_retry callers_in_def)
qed

lemma gr_last_tick:
  assumes "gr_inv t0 msg 34 h s"
  shows "\<exists>s'. step s Tick = Some s' \<and> clock s' = t0 + 35000 \<and>
           (gr_inv t0 msg 35 h s' \<or> fl_inv (t0 + 35000) msg s')"
proof (cases "bannerFetchInFlight s")
  case True
  with assms show ?thesis
    by (simp add: gr_inv_def fl_inv_def fire_def rearm_def timer_defs tryFetchDuringBanner_def
        graceExpiry_def setTimeout_def clearTimer_def Let_def)
next
  case False
  with assms have "callers_in {GraceCheck h} s" by (simp add: gr_inv_def no_retry_callers)
  with assms False show ?thesis
    by (simp add: gr_inv_def fire_def rearm_def timer_defs tryFetchDuringBanner_def
        fetchBooks_def Let_def wf_def wfp_append_retry callers_in_def)
qed

lemma gr_overtime_tick:
  assumes "gr_inv t0 msg 35 h s"
  shows "\<exists>s'. step s Tick = Some s' \<and> clock s' = t0 + 36000 \<and> fl_inv (t0 + 36000) msg s'"
  using assms
  by (simp add: gr_inv_def fl_inv_def fire_def rearm_def timer_defs tryFetchDuringBanner_def
      graceExpiry_def setTimeout_def clearTimer_def Let_def)

definition at_rest :: "app \<Rightarrow> bool" where
  "at_rest s \<longleftrightarrow>
     \<not> bannerVisible s \<and> bannerPhase s = Idle \<and> bannerCountdown s = None \<and>
     bannerMessage s = [] \<and> countdownTimer s = None \<and> graceTimer s = None \<and>
     finalTimer s = None \<and> timers s = []"

lemma fl_tick:
  assumes "fl_inv tf msg s"
  shows "\<exists>s'. step s Tick = Some s' \<and> clock s' = tf + 3000 \<and> at_rest s'"
  using assms
  by (auto simp: fl_inv_def at_rest_def fire_def rearm_def timer_defs hideBanner_def
      clearBannerTimers_def clearTimer_def Let_def)


text \<open>One event of a run in which no request succeeds.\<close>

definition pre_inv :: "nat \<Rightarrow> string \<Rightarrow> nat \<Rightarrow> app \<Rightarrow> bool" where
  "pre_inv t0 msg k s \<longleftrightarrow> (\<exists>h. cd_inv t0 msg k h s) \<or> (\<exists>h. gr_inv t0 msg k h s)"

lemma pre_step:
  assumes i: "pre_inv t0 msg k s" and n: "never_succeeds e" and st: "step s e = Some s'"
  shows "pre_inv t0 msg (if e = Tick then Suc k else k) s' \<or>
         (fl_inv (clock s') msg s' \<and> t0 + 35000 \<le> clock s' \<and> clock s' \<le> t0 + 36000)"
proof (cases e)
  case Tick
  from i[unfolded pre_inv_def] show ?thesis
  proof (elim disjE exE)
    fix h assume c: "cd_inv t0 msg k h s"
    show ?thesis
    proof (cases "k < 24")
      case True
      from cd_tick[OF c True] st Tick show ?thesis by (auto simp: pre_inv_def)
    next
      case False
      with c have "k = 24" by (simp add: cd_inv_def)
      with cd_expire[of t0 msg h s] c st Tick show ?thesis by (auto simp: pre_inv_def)
    qed
  next
    fix h assume g: "gr_inv t0 msg k h s"
    then have "k \<le> 35" by (simp add: gr_inv_def)
    then consider "k < 34" | "k = 34" | "k = 35" by linarith
    then show ?thesis
    proof cases
      case 1
      from gr_tick[OF g 1] st Tick show ?thesis by (auto simp: pre_inv_def)
    next
      case 2
      with gr_last_tick[of t0 msg h s] g st Tick show ?thesis by (auto simp: pre_inv_def)
    next
      case 3
      with gr_overtime_tick[of t0 msg h s] g st Tick show ?thesis by auto
    qed
  qed
next
  case (Wait d)
  with i st show ?thesis
    by (auto simp: pre_inv_def simp del: step.simps dest: cd_wait gr_wait)
next
  case (Settle fid out)
  from i[unfolded pre_inv_def] show ?thesis
  proof (elim disjE exE)
    fix h assume c: "cd_inv t0 msg k h s"
    from cd_settle[OF c n[unfolded Settle]] st Settle show ?thesis
      by (auto simp: pre_inv_def)
  next
    fix h assume g: "gr_inv t0 msg k h s"
    then have "t0 + 1000 * k \<le> clock s" "clock s < t0 + 1000 * (k + 1)"
      by (simp_all add: gr_inv_def)
    with gr_settle[OF g n[unfolded Settle]] st Settle show ?thesis
      by (auto simp: pre_inv_def)
  qed
qed (use n in simp_all)

lemma fl_step:
  assumes i: "fl_inv tf msg s" and n: "never_succeeds e" and st: "step s e = Some s'"
  shows "fl_inv tf msg s' \<or> (e = Tick \<and> at_rest s' \<and> clock s' = tf + 3000)"
proof (cases e)
  case Tick
  with fl_tick[OF i] st show ?thesis by auto
next
  case (Wait d)
  with i st show ?thesis by (auto simp del: step.simps dest: fl_wait)
next
  case (Settle fid out)
  with fl_settle[OF i n[unfolded Settle]] st show ?thesis by auto
qed (use n in simp_all)

text \<open>
  The banner stays up along a run: the run is defined and the banner is visible in every
  state it passes.
\<close>

fun stays_visible :: "app \<Rightarrow> event list \<Rightarrow> bool" where
  "stays_visible s [] = bannerVisible s"
| "stays_visible s (e # es) =
     (bannerVisible s \<and> (case step s e of None \<Rightarrow> False | Some s' \<Rightarrow> stays_visible s' es))"

text \<open>The time at which a run first shows the failed phase.\<close>

fun failed_at :: "app \<Rightarrow> event list \<Rightarrow> nat option" where
  "failed_at s [] = (if bannerPhase s = Failed then Some (clock s) else None)"
| "failed_at s (e # es) =
     (if bannerPhase s = Failed then Some (clock s)
      else (case step s e of None \<Rightarrow> None | Some s' \<Rightarrow> failed_at s' es))"

lemma stays_visible_first: "stays_visible s evs \<Longrightarrow> bannerVisible s"
  by (cases evs) simp_all

lemma failed_at_failed: "bannerPhase s = Failed \<Longrightarrow> failed_at s evs = Some (clock s)"
  by (cases evs) simp_all

lemma fl_run:
  "fl_inv tf msg s \<Longrightarrow> list_all never_succeeds evs \<Longrightarrow> stays_visible s evs \<Longrightarrow>
   \<exists>s'. run s evs = Some s' \<and> fl_inv tf msg s'"
proof (induction evs arbitrary: s)
  case Nil
  then show ?case by simp
next
  case (Cons e es)
  from Cons.prems(3) obtain s1 where s1: "step s e = Some s1" and v: "stays_visible s1 es"
    by (auto split: option.splits)
  from Cons.prems(2) have n: "never_succeeds e" "list_all never_succeeds es" by simp_all
  from fl_step[OF Cons.prems(1) n(1) s1] stays_visible_first[OF v]
  have "fl_inv tf msg s1" by (auto simp: at_rest_def)
  from Cons.IH[OF this n(2) v] s1 show ?case by simp
qed

lemma pre_run:
  "pre_inv t0 msg k s \<Longrightarrow> list_all never_succeeds evs \<Longrightarrow> stays_visible s evs \<Longrightarrow>
   \<exists>s'. run s evs = Some s' \<and>
     (case failed_at s evs of
        None \<Rightarrow> pre_inv t0 msg (k + count_list evs Tick) s'
      | Some tf \<Rightarrow> fl_inv tf msg s' \<and> t0 + 35000 \<le> tf \<and> tf \<le> t0 + 36000)"
proof (induction evs arbitrary: s k)
  case Nil
  then have "bannerPhase s \<noteq> Failed" by (auto simp: pre_inv_def cd_inv_def gr_inv_def)
  with Nil show ?case by simp
next
  case (Cons e es)
  from Cons.prems(1) have nf: "bannerPhase s \<noteq> Failed"
    by (auto simp: pre_inv_def cd_inv_def gr_inv_def)
  from Cons.prems(3) obtain s1 where s1: "step s e = Some s1" and v: "stays_visible s1 es"
    by (auto split: option.splits)
  from Cons.prems(2) have n: "never_succeeds e" "list_all never_succeeds es" by simp_all
  from pre_step[OF Cons.prems(1) n(1) s1]
  show ?case
  proof
    assume p: "pre_inv t0 msg (if e = Tick then Suc k else k) s1"
    from Cons.IH[OF p n(2) v] s1 nf show ?thesis
      by (cases "e = Tick") (auto split: option.splits)
  next
    assume f: "fl_inv (clock s1) msg s1 \<and> t0 + 35000 \<le> clock s1 \<and> clock s1 \<le> t0 + 36000"
    then have "bannerPhase s1 = Failed" by (simp add: fl_inv_def)
    then have fa: "failed_at s1 es = Some (clock s1)" by (rule failed_at_failed)
    from f fl_run[OF _ n(2) v] obtain s' where "run s1 es = Some s'" "fl_inv (clock s1) msg s'"
      by blast
    with f fa s1 nf show ?thesis by simp
  qed
qed

lemma start_inv:
  assumes "quiet s"
  shows "cd_inv (clock s) msg 0 (nextHandle s) (startServerWakeBanner False msg s)"
proof -
  let ?s2 = "s\<lparr>bannerVisible := True, bannerFailureMessage := msg, bannerPhase := Countdown,
               bannerMessage := ''Starting server, it usually takes'',
               bannerCountdown := Some 25\<rparr>"
  from assms have w: "wf ?s2" and nf: "\<not> bannerFetchInFlight ?s2"
    by (simp_all add: quiet_def)
  from w nf have c: "callers_in {Detached} ?s2" by (rule no_retry_callers)
  from w have w3: "wf (tryFetchDuringBanner Detached ?s2)" by (rule wf_tryFetchDuringBanner)
  from c have c3: "callers_in {Detached} (tryFetchDuringBanner Detached ?s2)"
    by (rule callers_in_tryFetch) simp_all
  have eq: "startServerWakeBanner False msg s
        = (tryFetchDuringBanner Detached ?s2)
            \<lparr>timers := timers (tryFetchDuringBanner Detached ?s2) @
                 [(nextHandle (tryFetchDuringBanner Detached ?s2),
                   \<lparr>due = clock (tryFetchDuringBanner Detached ?s2) + 1000, period = Some 1000,
                      callback = CountdownTick\<rparr>)],
              nextHandle := Suc (nextHandle (tryFetchDuringBanner Detached ?s2)),
              countdownTimer := Some (nextHandle (tryFetchDuringBanner Detached ?s2))\<rparr>"
    by (simp add: startServerWakeBanner_def setInterval_def Let_def)
  from assms w3 c3 show ?thesis
    unfolding eq by (simp add: quiet_def cd_inv_def tryFetch_fields timer_defs)
qed



lemma clock_graceExpiry [simp]: "clock (graceExpiry cell s) = clock s"
  by (simp add: graceExpiry_def setTimeout_def clearTimer_def Let_def split: option.splits)

lemma clock_tryFetch [simp]: "clock (tryFetchDuringBanner k s) = clock s"
  by (cases k) (simp_all add: tryFetchDuringBanner_def fetchBooks_def Let_def)

lemma clock_countdownExpiry [simp]: "clock (countdownExpiry s) = clock s"
  by (simp add: countdownExpiry_def startGracePeriod_def setInterval_def clearTimer_def Let_def
      split: option.splits)

lemma clock_startServerWakeBanner [simp]: "clock (startServerWakeBanner imm m s) = clock s"
  by (simp add: startServerWakeBanner_def setTimeout_def setInterval_def Let_def split_def)

lemma clock_hideBanner [simp]: "clock (hideBanner s) = clock s"
  by (simp add: hideBanner_def clearBannerTimers_def clearTimer_def Let_def split: option.splits)

lemma clock_run_callback [simp]: "clock (run_callback cb s) = clock s"
  by (cases cb) (simp_all add: Let_def split: option.splits)




definition cold_start :: app where
  "cold_start = startServerWakeBanner False ''Unable to load books'' init"

lemma quiet_init: "quiet init"
  by (simp add: quiet_def wf_init) (simp add: init_def)




text \<open>Success of a silent retry.\<close>

lemma resume_hidden: "\<not> bannerVisible s \<Longrightarrow> resume_after_retry k s = s"
  by (cases k) (simp_all add: graceExpiry_def)

lemma clearBannerTimers_fields:
  "countdownTimer (clearBannerTimers s) = None"
  "graceTimer (clearBannerTimers s) = None"
  "finalTimer (clearBannerTimers s) = None"
  "timers (clearBannerTimers s) =
     filter (\<lambda>p. Some (fst p) \<noteq> countdownTimer s \<and> Some (fst p) \<noteq> graceTimer s \<and>
                 Some (fst p) \<noteq> finalTimer s) (timers s)"
  "books (clearBannerTimers s) = books s"
  "colorMap (clearBannerTimers s) = colorMap s"
  "formName (clearBannerTimers s) = formName s"
  "editingId (clearBannerTimers s) = editingId s"
  "statusMessage (clearBannerTimers s) = statusMessage s"
  "loading (clearBannerTimers s) = loading s"
  "bannerVisible (clearBannerTimers s) = bannerVisible s"
  "bannerMessage (clearBannerTimers s) = bannerMessage s"
  "bannerCountdown (clearBannerTimers s) = bannerCountdown s"
  "bannerPhase (clearBannerTimers s) = bannerPhase s"
  "bannerFailureMessage (clearBannerTimers s) = bannerFailureMessage s"
  "bannerDelayTimer (clearBannerTimers s) = bannerDelayTimer s"
  "bannerFetchInFlight (clearBannerTimers s) = bannerFetchInFlight s"
  "secondsLeft (clearBannerTimers s) = secondsLeft s"
  "clock (clearBannerTimers s) = clock s"
  "nextHandle (clearBannerTimers s) = nextHandle s"
  "pending (clearBannerTimers s) = pending s"
  "nextFetch (clearBannerTimers s) = nextFetch s"
  by (cases "countdownTimer s"; cases "graceTimer s"; cases "finalTimer s";
      simp add: clearBannerTimers_def clearTimer_def Let_def cong: filter_cong)+

lemma hideBanner_fields:
  "\<not> bannerVisible (hideBanner s)"
  "bannerPhase (hideBanner s) = Idle"
  "bannerCountdown (hideBanner s) = None"
  "bannerMessage (hideBanner s) = []"
  "countdownTimer (hideBanner s) = None"
  "graceTimer (hideBanner s) = None"
  "finalTimer (hideBanner s) = None"
  "timers (hideBanner s) =
     filter (\<lambda>p. Some (fst p) \<noteq> countdownTimer s \<and> Some (fst p) \<noteq> graceTimer s \<and>
                 Some (fst p) \<noteq> finalTimer s) (timers s)"
  "books (hideBanner s) = books s"
  "colorMap (hideBanner s) = colorMap s"
  "formName (hideBanner s) = formName s"
  "editingId (hideBanner s) = editingId s"
  "statusMessage (hideBanner s) = statusMessage s"
  "loading (hideBanner s) = loading s"
  "bannerFailureMessage (hideBanner s) = bannerFailureMessage s"
  "bannerDelayTimer (hideBanner s) = bannerDelayTimer s"
  "bannerFetchInFlight (hideBanner s) = bannerFetchInFlight s"
  "secondsLeft (hideBanner s) = secondsLeft s"
  "clock (hideBanner s) = clock s"
  "nextHandle (hideBanner s) = nextHandle s"
  "pending (hideBanner s) = pending s"
  "nextFetch (hideBanner s) = nextFetch s"
  by (simp_all add: hideBanner_def clearBannerTimers_fields)

lemma success_retry:
  assumes "map_of (pending s) fid = Some (FetchBooks f)" and "silent f"
      and "frame_wf (FetchBooks f)" and "awaiting f = AwaitJson"
      and "bannerDelayTimer s = None"
  shows "settle fid (Json (Items data)) s =
           Some ((hideBanner (s\<lparr>pending := filter (\<lambda>p. fst p \<noteq> fid) (pending s),
                    books := data, colorMap := assignColors data (colorMap s),
                    statusMessage := js ''Reading list refreshed. Ready for more stories!''\<rparr>))
                 \<lparr>bannerFetchInFlight := False\<rparr>)"
proof -
  from assms(2,3) obtain k where k: "caller f = Retry k" by (cases "caller f") auto
  have h: "\<not> bannerVisible ((hideBanner x)\<lparr>bannerFetchInFlight := False\<rparr>)" for x
    by (simp add: hideBanner_fields)
  have d: "bannerDelayTimer (hideBanner x) = bannerDelayTimer x" for x
    by (simp add: hideBanner_fields)
  from assms k show ?thesis
    by (simp add: settle_def fetchBooks_resume_def fetchBooks_success_def fetchBooks_finally_def
        setMessage_def Let_def d resume_hidden[OF h])
qed

lemma success_at_rest:
  assumes "countdownTimer s = None \<or> graceTimer s = None" 
      and "finalTimer s = None \<or> (countdownTimer s = None \<and> graceTimer s = None)"
      and "\<exists>h x. timers s = [(h, x)] \<and> (countdownTimer s = Some h \<or> graceTimer s = Some h \<or> finalTimer s = Some h)"
  shows "at_rest ((hideBanner (s\<lparr>pending := p, books := b, colorMap := c, statusMessage := m\<rparr>))
                    \<lparr>bannerFetchInFlight := False\<rparr>)"
  using assms
  by (auto simp: at_rest_def hideBanner_fields)

lemma hide_keeps:
  "clock ((hideBanner (s\<lparr>pending := p, books := b, colorMap := c, statusMessage := m\<rparr>))
            \<lparr>bannerFetchInFlight := False\<rparr>) = clock s"
  "books ((hideBanner (s\<lparr>pending := p, books := b, colorMap := c, statusMessage := m\<rparr>))
            \<lparr>bannerFetchInFlight := False\<rparr>) = b"
  "\<not> bannerFetchInFlight ((hideBanner x)\<lparr>bannerFetchInFlight := False\<rparr>)"
  by (simp_all add: hideBanner_fields)

text \<open>
  While a silent retry is in flight in such a run, the one registered timer is one whose
  handle the banner holds, so that hiding the banner cancels it.
\<close>

definition cancellable :: "app \<Rightarrow> bool" where
  "cancellable s \<longleftrightarrow> wf s \<and> bannerDelayTimer s = None \<and>
     (countdownTimer s = None \<or> graceTimer s = None) \<and>
     (finalTimer s = None \<or> (countdownTimer s = None \<and> graceTimer s = None)) \<and>
     (bannerFetchInFlight s \<longrightarrow>
        (\<exists>h x. timers s = [(h, x)] \<and>
           (countdownTimer s = Some h \<or> graceTimer s = Some h \<or> finalTimer s = Some h)))"

lemma cd_cancellable: "cd_inv t0 msg k h s \<Longrightarrow> cancellable s"
  by (auto simp: cd_inv_def cancellable_def)

lemma gr_cancellable: "gr_inv t0 msg k h s \<Longrightarrow> cancellable s"
  by (auto simp: gr_inv_def cancellable_def)

lemma fl_cancellable: "fl_inv tf msg s \<Longrightarrow> cancellable s"
  by (auto simp: fl_inv_def cancellable_def)

lemma cancellable_success:
  assumes "cancellable s" and m: "map_of (pending s) fid = Some (FetchBooks f)" and "silent f"
      and "awaiting f = AwaitJson"
  shows "\<exists>s2. step s (Settle fid (Json (Items data))) = Some s2 \<and> at_rest s2 \<and>
           clock s2 = clock s \<and> books s2 = data \<and> \<not> bannerFetchInFlight s2"
proof -
  from assms(1) have w: "wf s" and d: "bannerDelayTimer s = None" by (simp_all add: cancellable_def)
  note fw = wf_retry_frame[OF w m]
  from fw(2) assms(3) have "bannerFetchInFlight s" by simp
  with assms(1) have a: "countdownTimer s = None \<or> graceTimer s = None"
    "finalTimer s = None \<or> (countdownTimer s = None \<and> graceTimer s = None)"
    "\<exists>h x. timers s = [(h, x)] \<and>
       (countdownTimer s = Some h \<or> graceTimer s = Some h \<or> finalTimer s = Some h)"
    by (simp_all add: cancellable_def)
  show ?thesis
    unfolding step.simps success_retry[OF m assms(3) fw(1) assms(4) d]
    using success_at_rest[OF a] by (simp add: hide_keeps)
qed


lemma run_cancellable:
  assumes "quiet s" and "list_all never_succeeds evs"
      and "stays_visible (startServerWakeBanner False msg s) evs"
      and "run (startServerWakeBanner False msg s) evs = Some s1"
  shows "cancellable s1"
proof -
  let ?s0 = "startServerWakeBanner False msg s"
  from start_inv[OF assms(1)] have "pre_inv (clock s) msg 0 ?s0" by (auto simp: pre_inv_def)
  from pre_run[OF this assms(2,3)] assms(4)
  have "case failed_at ?s0 evs of
              None \<Rightarrow> pre_inv (clock s) msg (0 + count_list evs Tick) s1
            | Some tf \<Rightarrow> fl_inv tf msg s1 \<and> clock s + 35000 \<le> tf \<and> tf \<le> clock s + 36000"
    by auto
  then show ?thesis
    by (cases "failed_at ?s0 evs") (auto simp: pre_inv_def dest: cd_cancellable gr_cancellable fl_cancellable)
qed

text \<open>
  A schedule in which every retry is answered before the next tick: the retries with the
  request ids from \<open>fid\<close> on fail one after the other, each followed by a tick.
\<close>

fun failing_rounds :: "nat \<Rightarrow> nat \<Rightarrow> event list" where
  "failing_rounds fid 0 = []"
| "failing_rounds fid (Suc j) =
     Settle fid (Rejected ''Failed to fetch'') # Tick # failing_rounds (Suc fid) j"

definition nth_retry_succeeds :: "nat \<Rightarrow> nat \<Rightarrow> item list \<Rightarrow> event list" where
  "nth_retry_succeeds fid n data =
     failing_rounds fid (n - 1) @
     [Settle (fid + (n - 1)) (Response 200), Settle (fid + (n - 1)) (Json (Items data))]"

definition first_retry :: fetch_frame where
  "first_retry = \<lparr>silent = True, triggerBannerOnFailure = False, allowImmediateFailure = True,
     bannerKickoffPending = False, awaiting = AwaitFetch, caller = Retry Detached\<rparr>"

definition armed :: "nat \<Rightarrow> string \<Rightarrow> nat \<Rightarrow> nat \<Rightarrow> app \<Rightarrow> bool" where
  "armed t0 msg k fid s \<longleftrightarrow>
     (\<exists>h. cd_inv t0 msg k h s) \<and> map_of (pending s) fid = Some (FetchBooks first_retry) \<and>
     nextFetch s = Suc fid \<and> clock s = t0 + 1000 * k"

lemma count_failing_rounds: "count_list (failing_rounds fid j) Tick = j"
  by (induction j arbitrary: fid) simp_all

lemma cd_tick_eq:
  assumes "cd_inv t0 msg k h s" and "k < 24"
  shows "step s Tick = Some (tryFetchDuringBanner Detached
           (s\<lparr>clock := t0 + 1000 * (k + 1),
              timers := [(h, countdown_timer (t0 + 1000 * (k + 1) + 1000))],
              bannerCountdown := Some (25 - k - 1)\<rparr>))"
  using assms by (simp add: cd_inv_def fire_def rearm_def timer_defs)

lemma armed_round:
  assumes a: "armed t0 msg k fid s" and k: "k < 24"
  shows "\<exists>s2. run s [Settle fid (Rejected ''Failed to fetch''), Tick] = Some s2 \<and>
           armed t0 msg (Suc k) (Suc fid) s2"
proof -
  from a obtain h where c: "cd_inv t0 msg k h s"
    and m: "map_of (pending s) fid = Some (FetchBooks first_retry)"
    and nf: "nextFetch s = Suc fid" and cl: "clock s = t0 + 1000 * k"
    by (auto simp: armed_def)
  from c have d: "bannerDelayTimer s = None" and w: "wf s" by (simp_all add: cd_inv_def)
  let ?s1 = "s\<lparr>pending := filter (\<lambda>p. fst p \<noteq> fid) (pending s),
                bannerFetchInFlight := False\<rparr>"
  from m d have st1: "step s (Settle fid (Rejected ''Failed to fetch'')) = Some ?s1"
    by (simp add: settle_def fetchBooks_resume_def first_retry_def catch_retry)
  have ns: "never_succeeds (Settle fid (Rejected ''Failed to fetch''))" by simp
  from cd_settle[OF c ns] st1 have c1: "cd_inv t0 msg k h ?s1" by simp
  then have w1: "wf ?s1" by (simp add: cd_inv_def)
  let ?x = "?s1\<lparr>clock := t0 + 1000 * (k + 1),
                 timers := [(h, countdown_timer (t0 + 1000 * (k + 1) + 1000))],
                 bannerCountdown := Some (25 - k - 1)\<rparr>"
  let ?s2 = "tryFetchDuringBanner Detached ?x"
  from cd_tick_eq[OF c1 k] have st2: "step ?s1 Tick = Some ?s2" .
  from cd_tick[OF c1 k] st2 have c2: "cd_inv t0 msg (Suc k) h ?s2" by simp
  from wf_fresh[OF w1] have fr: "list_all (\<lambda>p. fst p < Suc fid) (pending ?s1)"
    by (simp add: nf)
  have p2: "pending ?s2 = pending ?s1 @ [(Suc fid, FetchBooks first_retry)]"
    "nextFetch ?s2 = Suc (Suc fid)"
    by (simp_all add: tryFetchDuringBanner_def fetchBooks_def Let_def first_retry_def nf)
  from map_of_fresh[OF fr] have "map_of (pending ?s2) (Suc fid) = Some (FetchBooks first_retry)"
    unfolding p2 .
  with c2 p2 have "armed t0 msg (Suc k) (Suc fid) ?s2"
    by (auto simp: armed_def)
  with st1 st2 show ?thesis by (simp del: step.simps)
qed

lemma armed_rounds:
  "armed t0 msg k fid s \<Longrightarrow> k + j \<le> 24 \<Longrightarrow>
   \<exists>s'. run s (failing_rounds fid j) = Some s' \<and> armed t0 msg (k + j) (fid + j) s'"
proof (induction j arbitrary: k fid s)
  case 0
  then show ?case by simp
next
  case (Suc j)
  from Suc.prems have "k < 24" by simp
  from armed_round[OF Suc.prems(1) this] obtain s2
    where r: "run s [Settle fid (Rejected ''Failed to fetch''), Tick] = Some s2"
      and a: "armed t0 msg (Suc k) (Suc fid) s2" by blast
  from Suc.prems have "Suc k + j \<le> 24" by simp
  from Suc.IH[OF a this] obtain s' where "run s2 (failing_rounds (Suc fid) j) = Some s'"
    "armed t0 msg (Suc k + j) (Suc fid + j) s'" by blast
  with r show ?case by (auto simp del: step.simps split: option.splits)
qed

lemma map_of_readd:
  "map_of (filter (\<lambda>p. fst p \<noteq> fid) ps @ [(fid, fr)]) fid = Some fr"
  by (induction ps) auto

lemma armed_success:
  assumes a: "armed t0 msg k fid s"
  shows "\<exists>s'. run s [Settle fid (Response 200), Settle fid (Json (Items data))] = Some s' \<and>
           at_rest s' \<and> books s' = data \<and> clock s' = t0 + 1000 * k"
proof -
  from a obtain h where c: "cd_inv t0 msg k h s"
    and m: "map_of (pending s) fid = Some (FetchBooks first_retry)"
    and cl: "clock s = t0 + 1000 * k"
    by (auto simp: armed_def)
  let ?s1 = "s\<lparr>pending := filter (\<lambda>p. fst p \<noteq> fid) (pending s) @
                  [(fid, FetchBooks (first_retry\<lparr>awaiting := AwaitJson\<rparr>))]\<rparr>"
  from m have st1: "step s (Settle fid (Response 200)) = Some ?s1"
    by (simp add: settle_def fetchBooks_resume_def first_retry_def ok_def)
  have ns: "never_succeeds (Settle fid (Response 200))" by simp
  from cd_settle[OF c ns] st1 have c1: "cd_inv t0 msg k h ?s1" by simp
  have m1: "map_of (pending ?s1) fid = Some (FetchBooks (first_retry\<lparr>awaiting := AwaitJson\<rparr>))"
    by (simp add: map_of_readd del: map_of_append)
  from cancellable_success[OF cd_cancellable[OF c1] m1, of data] obtain s2
    where "step ?s1 (Settle fid (Json (Items data))) = Some s2" "at_rest s2"
      "clock s2 = clock ?s1" "books s2 = data"
    by (auto simp: first_retry_def)
  with st1 cl show ?thesis by (simp del: step.simps)
qed

lemma start_armed:
  assumes "quiet s"
  shows "armed (clock s) msg 0 (nextFetch s) (startServerWakeBanner False msg s)"
proof -
  from assms have w: "wf s" and nf: "\<not> bannerFetchInFlight s" by (simp_all add: quiet_def)
  from wf_fresh[OF w] have "map_of (pending s @ [(nextFetch s, FetchBooks first_retry)]) (nextFetch s)
      = Some (FetchBooks first_retry)" by (rule map_of_fresh)
  with nf have "map_of (pending (startServerWakeBanner False msg s)) (nextFetch s)
      = Some (FetchBooks first_retry)"
    "nextFetch (startServerWakeBanner False msg s) = Suc (nextFetch s)"
    "clock (startServerWakeBanner False msg s) = clock s"
    by (simp_all add: startServerWakeBanner_def tryFetchDuringBanner_def fetchBooks_def
        setInterval_def Let_def first_retry_def)
  with start_inv[OF assms, of msg] show ?thesis by (auto simp: armed_def)
qed

text \<open>
  What claim C2 says holds in a banner cycle that starts from rest.  Start the banner
  without immediate failure from rest and let it run, with no request succeeding, for as
  long as it stays up: in whatever phase this leaves it, when the body of a silent retry
  then arrives the banner is at rest in the same instant: hidden, idle, without countdown
  or message, the three handles cleared and no timer left in the timer table.  In
  particular, when every retry is answered before the next tick and the \<open>n\<close>-th retry is
  the first to succeed, for \<open>n\<close> up to 25, the banner is at rest after fewer than \<open>n\<close>
  ticks, \<open>n\<close> - 1 seconds after its start.
\<close>

theorem retry_success_hides:
  assumes "quiet s"
  shows "(list_all never_succeeds evs \<and>
          stays_visible (startServerWakeBanner False msg s) evs \<and>
          run (startServerWakeBanner False msg s) evs = Some s1 \<and>
          map_of (pending s1) fid = Some (FetchBooks f) \<and> silent f \<and> awaiting f = AwaitJson \<longrightarrow>
            (\<exists>s2. step s1 (Settle fid (Json (Items data))) = Some s2 \<and> at_rest s2 \<and>
               clock s2 = clock s1 \<and> books s2 = data \<and> \<not> bannerFetchInFlight s2)) \<and>
         (0 < n \<and> n \<le> 25 \<longrightarrow>
            (\<exists>s'. run (startServerWakeBanner False msg s)
                     (nth_retry_succeeds (nextFetch s) n data) = Some s' \<and>
               at_rest s' \<and> books s' = data \<and>
               count_list (nth_retry_succeeds (nextFetch s) n data) Tick < n \<and>
               clock s' = clock s + 1000 * (n - 1)))"
proof (intro conjI impI)
  assume h: "list_all never_succeeds evs \<and>
          stays_visible (startServerWakeBanner False msg s) evs \<and>
          run (startServerWakeBanner False msg s) evs = Some s1 \<and>
          map_of (pending s1) fid = Some (FetchBooks f) \<and> silent f \<and> awaiting f = AwaitJson"
  then have u: "cancellable s1" using run_cancellable[OF assms] by blast
  from h have m: "map_of (pending s1) fid = Some (FetchBooks f)" and sf: "silent f"
    and aw: "awaiting f = AwaitJson" by simp_all
  from u m sf aw
  show "\<exists>s2. step s1 (Settle fid (Json (Items data))) = Some s2 \<and> at_rest s2 \<and>
               clock s2 = clock s1 \<and> books s2 = data \<and> \<not> bannerFetchInFlight s2"
    by (rule cancellable_success)
next
  assume n: "0 < n \<and> n \<le> 25"
  let ?s0 = "startServerWakeBanner False msg s"
  from n have "0 + (n - 1) \<le> 24" by arith
  from armed_rounds[OF start_armed[OF assms] this] obtain s1
    where r1: "run ?s0 (failing_rounds (nextFetch s) (n - 1)) = Some s1"
      and a1: "armed (clock s) msg (0 + (n - 1)) (nextFetch s + (n - 1)) s1" by blast
  from armed_success[OF a1, of data] obtain s' where
    "run s1 [Settle (nextFetch s + (n - 1)) (Response 200),
             Settle (nextFetch s + (n - 1)) (Json (Items data))] = Some s'"
    "at_rest s'" "books s' = data" "clock s' = clock s + 1000 * (0 + (n - 1))" by blast
  with r1 n show "\<exists>s'. run ?s0 (nth_retry_succeeds (nextFetch s) n data) = Some s' \<and>
               at_rest s' \<and> books s' = data \<and>
               count_list (nth_retry_succeeds (nextFetch s) n data) Tick < n \<and>
               clock s' = clock s + 1000 * (n - 1)"
    by (simp add: nth_retry_succeeds_def run_append count_failing_rounds del: run.simps)
qed

text \<open>
  The theorem on a run of two ticks after which the first retry is answered, and on the
  schedule in which the third retry succeeds.
\<close>

theorem retry_success_hides_witness:
  "quiet init \<and> list_all never_succeeds [Tick, Tick, Settle 0 (Response 200)] \<and>
   stays_visible cold_start [Tick, Tick, Settle 0 (Response 200)] \<and>
   map_option (\<lambda>s. (bannerVisible s, bannerPhase s, bannerCountdown s, timers s, clock s))
     (run cold_start ([Tick, Tick, Settle 0 (Response 200)] @ [Settle 0 (Json (Items []))]))
     = Some (False, Idle, None, [], 2000) \<and>
   (0::nat) < 3 \<and> (3::nat) \<le> 25 \<and>
   map_option (\<lambda>s. (bannerVisible s, bannerPhase s, bannerCountdown s, timers s, clock s))
     (run cold_start (nth_retry_succeeds 0 3 [])) = Some (False, Idle, None, [], 2000)"
proof -
  let ?evs = "[Tick, Tick, Settle 0 (Response 200)]"
  let ?f = "\<lparr>silent = True, triggerBannerOnFailure = False, allowImmediateFailure = True,
     bannerKickoffPending = False, awaiting = AwaitJson, caller = Retry Detached\<rparr>"
  have n: "list_all never_succeeds ?evs" by simp
  have v: "stays_visible cold_start ?evs" by (simp add: cold_start_def model_defs)
  have "\<exists>s1. run cold_start ?evs = Some s1 \<and> map_of (pending s1) 0 = Some (FetchBooks ?f) \<and>
          clock s1 = 2000"
    by (simp add: cold_start_def model_defs)
  then obtain s1 where r: "run cold_start ?evs = Some s1"
    and m: "map_of (pending s1) 0 = Some (FetchBooks ?f)" and c: "clock s1 = 2000" by blast
  note T = retry_success_hides[OF quiet_init, of _ "''Unable to load books''", folded cold_start_def]
  from T[of ?evs s1 0 ?f "[]" 1, THEN conjunct1] n v r m
  obtain s2 where s2: "step s1 (Settle 0 (Json (Items []))) = Some s2" "at_rest s2"
    "clock s2 = clock s1" by auto
  from r s2(1) have r2: "run cold_start (?evs @ [Settle 0 (Json (Items []))]) = Some s2"
    unfolding run_append by (simp del: step.simps)
  have nf: "nextFetch init = 0" "clock init = 0" by (simp_all add: init_def)
  from T[of "[]" init 0 ?f "[]" 3, THEN conjunct2] obtain s'
    where "run cold_start (nth_retry_succeeds 0 3 []) = Some s'" "at_rest s'"
      "clock s' = 2000"
    unfolding nf by auto
  with quiet_init n v r2 s2 c show ?thesis by (simp add: at_rest_def del: run.simps)
qed

section \<open>A final timer that outlives a successful retry\<close>

text \<open>
  Claim C2 on a run of the component.  The first load hangs; the banner starts after the
  kickoff delay and its first retry is rejected just before the 35th tick, so that this
  tick, the last of the grace period, issues a retry and waits for it.  The 36th tick
  finds the seconds used up, sets the failed phase and registers the final timeout, due at
  40.2 s.  The retry is then rejected, the grace callback that was waiting for it does the
  same again, and the handle of the first final timeout is overwritten by that of a
  second.  The first load now succeeds and hides the banner, which cancels the second
  timeout only.  The user refreshes, the refresh is rejected, the banner starts again in
  countdown, and its first retry succeeds: the banner is hidden, and with it the countdown
  interval is cancelled, but the final timeout of the first cycle is still registered.
\<close>

definition leaked_final_timer :: "event list" where
  "leaked_final_timer =
     [Mount] @ replicate 35 Tick @ [Wait 500, Settle 1 (Rejected ''Failed to fetch''),
      Tick, Tick, Wait 100, Settle 2 (Rejected ''Failed to fetch''),
      Settle 0 (Response 200), Settle 0 (Json (Items [])),
      ClickRefresh, Settle 3 (Rejected ''Failed to fetch''), Settle 4 (Response 200)]"

theorem final_timer_survives_success:
  "map_option (\<lambda>s. (bannerVisible s, bannerPhase s, bannerCountdown s, bannerFetchInFlight s,
                      map (\<lambda>p. (callback (snd p), due (snd p))) (timers s)))
     (run init leaked_final_timer)
     = Some (True, Countdown, Some 25, True, [(FinalHide, 40200), (CountdownTick, 38300)]) \<and>
   map_option (\<lambda>s. (bannerVisible s, bannerPhase s, bannerCountdown s, bannerFetchInFlight s,
                      map (\<lambda>p. (callback (snd p), due (snd p))) (timers s), clock s))
     (run init (leaked_final_timer @ [Settle 4 (Json (Items []))]))
     = Some (False, Idle, None, False, [(FinalHide, 40200)], 37300)"
  by (simp add: leaked_final_timer_def replicate_numeral model_defs)

end
